theory Spec2Isabelle
  imports Main "HOL-Library.List_Lexorder"
begin

section \<open>Python's strings and ranges\<close>

text \<open>
  A Python \<open>str\<close> is a sequence of Unicode code points, and \<open>len\<close> counts code points,
  so a string of the program is a list of naturals. Literals of the source that are plain
  ASCII are written with \<open>u\<close>; the homoglyph table gives its code points as numbers.
\<close>

type_synonym ustr = "nat list"

definition ord :: "char \<Rightarrow> nat" where
  "ord c = of_char c"

definition u :: "string \<Rightarrow> ustr" where
  "u s = map ord s"

definition hyphen :: nat where
  "hyphen = 45"

definition dot :: nat where
  "dot = 46"

text \<open>
  \<open>range(a, b)\<close> on Python's unbounded integers: empty when \<open>b \<le> a\<close>, also when
  \<open>b\<close> is negative (\<open>len(s) - 3\<close> for a short \<open>s\<close>). Every range of the source starts
  at 0 or 1.
\<close>

definition py_range :: "int \<Rightarrow> int \<Rightarrow> nat list" where
  "py_range a b = map nat [a..b - 1]"

text \<open>
  \<open>sep.join(xs)\<close>, \<open>s.split(c)\<close> for a separator of one character (the result is never
  empty), \<open>filter(None, xs)\<close> on strings (the empty string is the one that is false), and
  \<open>s.replace(c, g)\<close> for a single character \<open>c\<close>.
\<close>

fun join :: "ustr \<Rightarrow> ustr list \<Rightarrow> ustr" where
  "join sep [] = []"
| "join sep [x] = x"
| "join sep (x # y # ys) = x @ sep @ join sep (y # ys)"

fun py_split :: "nat \<Rightarrow> ustr \<Rightarrow> ustr list" where
  "py_split c [] = [[]]"
| "py_split c (x # xs) =
     (if x = c then [] # py_split c xs
      else (case py_split c xs of [] \<Rightarrow> [[x]] | y # ys \<Rightarrow> (x # y) # ys))"

definition filter_None :: "ustr list \<Rightarrow> ustr list" where
  "filter_None xs = filter (\<lambda>x. x \<noteq> []) xs"

definition replace :: "nat \<Rightarrow> ustr \<Rightarrow> ustr \<Rightarrow> ustr" where
  "replace c g s = concat (map (\<lambda>x. if x = c then g else [x]) s)"

text \<open>
  \<open>list(set(xs))\<close>: the elements of \<open>xs\<close>, each once. Python does not fix the order of
  the result; the model keeps each element where it is first seen, and no theorem below
  rests on that order.
\<close>

definition list_of_set :: "'a list \<Rightarrow> 'a list" where
  "list_of_set xs = remdups xs"

text \<open>
  \<open>s.split(sep)\<close> for a separator string (no separator of the source is empty),
  \<open>sub in s\<close>, \<open>s.startswith(p)\<close>, \<open>s.strip(".")\<close> and \<open>str(n)\<close> of a natural number.
\<close>

fun split_acc :: "ustr \<Rightarrow> ustr \<Rightarrow> ustr \<Rightarrow> ustr list" where
  "split_acc sep cur [] = [rev cur]"
| "split_acc sep cur (x # xs) =
     (if sep \<noteq> [] \<and> take (length sep) (x # xs) = sep
      then rev cur # split_acc sep [] (drop (length sep - 1) xs)
      else split_acc sep (x # cur) xs)"

definition split_str :: "ustr \<Rightarrow> ustr \<Rightarrow> ustr list" where
  "split_str sep s = split_acc sep [] s"

definition contains :: "ustr \<Rightarrow> ustr \<Rightarrow> bool" where
  "contains sub s = list_ex (\<lambda>i. take (length sub) (drop i s) = sub) [0 ..< length s + 1]"

definition startswith :: "ustr \<Rightarrow> ustr \<Rightarrow> bool" where
  "startswith p s = (take (length p) s = p)"

definition strip_chars :: "(nat \<Rightarrow> bool) \<Rightarrow> ustr \<Rightarrow> ustr" where
  "strip_chars P s = rev (dropWhile P (rev (dropWhile P s)))"

definition strip_dots :: "ustr \<Rightarrow> ustr" where
  "strip_dots s = strip_chars (\<lambda>c. c = dot) s"

fun str_nat :: "nat \<Rightarrow> ustr" where
  "str_nat n = (if n < 10 then [48 + n] else str_nat (n div 10) @ [48 + n mod 10])"

section \<open>Regular expressions as Python's \<open>re\<close> matches them\<close>

text \<open>
  The patterns of the source are written as terms of \<open>rexp\<close>, one constructor per
  construct of the pattern, and matched by a backtracking matcher that returns the ways
  to match in Python's order of preference (a greedy repetition tries one more round
  before it stops). A character class is a list of inclusive ranges of code points; the
  flags of the pattern are written out in the term: with \<open>IGNORECASE\<close> a class holds both
  cases, and \<open>$\<close> and \<open>^\<close> have a constructor of their own under \<open>MULTILINE\<close>.
\<close>

type_synonym cls = "(nat \<times> nat) list"

definition in_cls :: "cls \<Rightarrow> nat \<Rightarrow> bool" where
  "in_cls k c = list_ex (\<lambda>r. fst r \<le> c \<and> c \<le> snd r) k"

definition newline :: nat where
  "newline = 10"

datatype rexp =
    Cls cls
  | NCls cls
  | Rep rexp nat "nat option"
  | Seq rexp rexp
  | Group string rexp
  | Ahead rexp
  | NotAhead rexp
  | NotBehind cls
  | Caret
  | CaretM
  | Dollar
  | DollarM
  | BeginS
  | EndS

text \<open>
  \<open>Cls k\<close> is \<open>[...]\<close>, \<open>NCls k\<close> is \<open>[^...]\<close>, \<open>Rep r n m\<close> is the greedy \<open>r{n,m}\<close>
  (\<open>r*\<close>, \<open>r+\<close>, \<open>r?\<close> and \<open>r{n,}\<close> with \<open>None\<close> for no upper bound), \<open>Group g r\<close> is
  \<open>(?P<g>r)\<close>, \<open>Ahead r\<close> is \<open>(?=r)\<close>, \<open>NotAhead r\<close> is \<open>(?!r)\<close>, \<open>NotBehind k\<close> is
  \<open>(?<![k])\<close>, \<open>Caret\<close> is \<open>^\<close> and \<open>Dollar\<close> is \<open>$\<close> without \<open>MULTILINE\<close> (the end of the
  string, or just before a newline that ends it), \<open>CaretM\<close> and \<open>DollarM\<close> are \<open>^\<close> and
  \<open>$\<close> under \<open>MULTILINE\<close> (the start of the string or after any newline, the end of the
  string or before any newline), \<open>BeginS\<close> is \<open>\A\<close> and \<open>EndS\<close> is \<open>\Z\<close>.

  A state of the matcher is the position reached and the groups captured so far, the
  latest first.
\<close>

type_synonym mstate = "nat \<times> (string \<times> ustr) list"

text \<open>
  A greedy repetition of at least \<open>n\<close> and at most \<open>m\<close> rounds of \<open>f\<close>. A round has to move
  on in the string, so that \<open>length s - pos + 1\<close> rounds of fuel reach every match; no
  pattern of the source repeats an expression that matches the empty string.
\<close>

fun rep_run :: "(mstate \<Rightarrow> mstate list) \<Rightarrow> nat \<Rightarrow> nat option \<Rightarrow> nat \<Rightarrow> mstate \<Rightarrow> mstate list" where
  "rep_run f n m 0 st = (if n = 0 then [st] else [])"
| "rep_run f n m (Suc fuel) st =
     (if m = Some 0 then []
      else concat (map (rep_run f (n - 1) (map_option (\<lambda>k. k - 1) m) fuel)
                       (filter (\<lambda>st'. fst st < fst st') (f st))))
     @ (if n = 0 then [st] else [])"

primrec ways :: "rexp \<Rightarrow> ustr \<Rightarrow> mstate \<Rightarrow> mstate list" where
  "ways (Cls k) s st =
     (if fst st < length s \<and> in_cls k (s ! fst st) then [(fst st + 1, snd st)] else [])"
| "ways (NCls k) s st =
     (if fst st < length s \<and> \<not> in_cls k (s ! fst st) then [(fst st + 1, snd st)] else [])"
| "ways (Rep r n m) s st = rep_run (ways r s) n m (length s - fst st + 1) st"
| "ways (Seq a b) s st = concat (map (ways b s) (ways a s st))"
| "ways (Group g r) s st =
     map (\<lambda>st'. (fst st', (g, take (fst st' - fst st) (drop (fst st) s)) # snd st'))
         (ways r s st)"
| "ways (Ahead r) s st = (if ways r s st = [] then [] else [st])"
| "ways (NotAhead r) s st = (if ways r s st = [] then [st] else [])"
| "ways (NotBehind k) s st =
     (if 0 < fst st \<and> fst st \<le> length s \<and> in_cls k (s ! (fst st - 1)) then [] else [st])"
| "ways Caret s st = (if fst st = 0 then [st] else [])"
| "ways CaretM s st =
     (if fst st = 0 \<or> (fst st \<le> length s \<and> s ! (fst st - 1) = newline) then [st] else [])"
| "ways Dollar s st =
     (if fst st = length s \<or> (fst st + 1 = length s \<and> s ! fst st = newline)
      then [st] else [])"
| "ways DollarM s st =
     (if fst st = length s \<or> (fst st < length s \<and> s ! fst st = newline) then [st] else [])"
| "ways BeginS s st = (if fst st = 0 then [st] else [])"
| "ways EndS s st = (if fst st = length s then [st] else [])"

text \<open>
  \<open>pattern.match(s)\<close>: the preferred match that starts at position 0, or \<open>None\<close>.
  \<open>group(g)\<close> of a match is the latest capture of \<open>g\<close>, \<open>None\<close> when the group took no part.
\<close>

definition re_match :: "rexp \<Rightarrow> ustr \<Rightarrow> mstate option" where
  "re_match r s = (case ways r s (0, []) of [] \<Rightarrow> None | m # _ \<Rightarrow> Some m)"

definition group :: "mstate \<Rightarrow> string \<Rightarrow> ustr option" where
  "group m g = map_of (snd m) g"

definition Star :: "rexp \<Rightarrow> rexp" where
  "Star r = Rep r 0 None"

definition Plus :: "rexp \<Rightarrow> rexp" where
  "Plus r = Rep r 1 None"

definition Opt :: "rexp \<Rightarrow> rexp" where
  "Opt r = Rep r 0 (Some 1)"

text \<open>\<open>seqs r [r1, ..., rn]\<close> is the sequence \<open>r r1 ... rn\<close>.\<close>

fun seqs :: "rexp \<Rightarrow> rexp list \<Rightarrow> rexp" where
  "seqs r [] = r"
| "seqs r (x # xs) = Seq r (seqs x xs)"

definition Chr :: "char \<Rightarrow> rexp" where
  "Chr c = Cls [(ord c, ord c)]"

text \<open>
  The classes of the patterns. Under \<open>IGNORECASE\<close>, \<open>[a-z]\<close> and \<open>[A-Z]\<close> of a \<open>str\<close>
  pattern match the 52 ASCII letters and the four characters that case-fold to one:
  U+0130, U+0131, U+017F and U+212A. \<open>.\<close> is every character but the newline. \<open>\s\<close> of a
  \<open>str\<close> pattern is the Unicode white space.
\<close>

definition letter_i :: cls where
  "letter_i = [(ord CHR ''a'', ord CHR ''z''), (ord CHR ''A'', ord CHR ''Z''),
               (304, 305), (383, 383), (8490, 8490)]"

definition digit :: cls where
  "digit = [(ord CHR ''0'', ord CHR ''9'')]"

definition any_char :: rexp where
  "any_char = NCls [(newline, newline)]"

definition space :: cls where
  "space = [(9, 13), (28, 32), (133, 133), (160, 160), (5760, 5760), (8192, 8202),
            (8232, 8233), (8239, 8239), (8287, 8287), (12288, 12288)]"

section \<open>What the program takes from Python's library\<close>

text \<open>
  Four operations of Python's Unicode support are decided by tables of the interpreter
  and not by the program. On ASCII text the model computes them; beyond ASCII they are
  fields of \<open>stdlib\<close>, and every theorem holds for each value of them:
  \<^item> \<open>idna_nonascii\<close>: \<open>name.encode("idna").decode()\<close> of a name with a character
    beyond ASCII, \<open>None\<close> when the codec raises \<open>UnicodeError\<close>;
  \<^item> \<open>idna_to_unicode\<close>: \<open>name.encode().decode("idna")\<close>, \<open>None\<close> when it raises;
  \<^item> \<open>isalpha_nonascii\<close>: \<open>c.isalpha()\<close> of a character beyond ASCII;
  \<^item> \<open>lower_nonascii\<close>: \<open>s.lower()\<close> of a string with a character beyond ASCII.
\<close>

record stdlib =
  idna_nonascii :: "ustr \<Rightarrow> ustr option"
  idna_to_unicode :: "ustr \<Rightarrow> ustr option"
  isalpha_nonascii :: "nat \<Rightarrow> bool"
  lower_nonascii :: "ustr \<Rightarrow> ustr"

definition is_ascii :: "ustr \<Rightarrow> bool" where
  "is_ascii s = list_all (\<lambda>c. c < 128) s"

text \<open>
  The \<open>idna\<close> codec on a name of ASCII characters returns the name as it is, and raises
  when a label but the last is empty or a label is longer than 63 (the source notes it:
  \<open>'.tla'.encode('idna')\<close> raises \<open>UnicodeError\<close>: label empty or too long). The empty
  name encodes to the empty name.
\<close>

definition idna_encode :: "stdlib \<Rightarrow> ustr \<Rightarrow> ustr option" where
  "idna_encode lib s =
     (if s = [] then Some []
      else if is_ascii s then
        (let labels = py_split dot s in
         if list_all (\<lambda>label. 0 < length label \<and> length label < 64) (butlast labels)
            \<and> length (last labels) < 64
         then Some s else None)
      else idna_nonascii lib s)"

definition isalpha :: "stdlib \<Rightarrow> nat \<Rightarrow> bool" where
  "isalpha lib c =
     (if c < 128 then (65 \<le> c \<and> c \<le> 90) \<or> (97 \<le> c \<and> c \<le> 122)
      else isalpha_nonascii lib c)"

definition lower :: "stdlib \<Rightarrow> ustr \<Rightarrow> ustr" where
  "lower lib s =
     (if is_ascii s then map (\<lambda>c. if 65 \<le> c \<and> c \<le> 90 then c + 32 else c) s
      else lower_nonascii lib s)"

section \<open>Candidate records\<close>

text \<open>
  A candidate is a dictionary; its keys are the thirteen of the data model, written with
  an underscore for the hyphen. A key that is not in the dictionary is \<open>None\<close>. The
  generator creates a candidate with \<open>fuzzer\<close> and \<open>domain-name\<close> only.
\<close>

record candidate =
  fuzzer :: string
  domain_name :: ustr
  dns_ns :: "ustr list option"
  dns_a :: "ustr list option"
  dns_aaaa :: "ustr list option"
  dns_mx :: "ustr list option"
  mx_spy :: "bool option"
  whois_created :: "ustr option"
  whois_updated :: "ustr option"
  geoip_country :: "ustr option"
  banner_http :: "ustr option"
  banner_smtp :: "ustr option"
  ssdeep_score :: "int option"

definition entry :: "string \<Rightarrow> ustr \<Rightarrow> candidate" where
  "entry f n =
     \<lparr>fuzzer = f, domain_name = n, dns_ns = None, dns_a = None, dns_aaaa = None,
      dns_mx = None, mx_spy = None, whois_created = None, whois_updated = None,
      geoip_country = None, banner_http = None, banner_smtp = None, ssdeep_score = None\<rparr>"

section \<open>DomainFuzz\<close>

text \<open>
  The fields of a \<open>DomainFuzz\<close> object: the three parts \<open>__domain_tld\<close> splits the input
  into, and the list \<open>self.domains\<close>, empty after \<open>__init__\<close>.
\<close>

record domain_fuzz =
  fz_subdomain :: ustr
  fz_domain :: ustr
  fz_tld :: ustr
  fz_domains :: "candidate list"

definition DomainFuzz :: "ustr \<Rightarrow> ustr \<Rightarrow> ustr \<Rightarrow> domain_fuzz" where
  "DomainFuzz sub d t = \<lparr>fz_subdomain = sub, fz_domain = d, fz_tld = t, fz_domains = []\<rparr>"

definition keys_of :: "(char \<times> string) list \<Rightarrow> nat \<Rightarrow> ustr option" where
  "keys_of table c = map_of (map (\<lambda>kv. (ord (fst kv), u (snd kv))) table) c"

definition qwerty :: "nat \<Rightarrow> ustr option" where
  "qwerty = keys_of
     [(CHR ''1'', ''2q''), (CHR ''2'', ''3wq1''), (CHR ''3'', ''4ew2''), (CHR ''4'', ''5re3''),
      (CHR ''5'', ''6tr4''), (CHR ''6'', ''7yt5''), (CHR ''7'', ''8uy6''), (CHR ''8'', ''9iu7''),
      (CHR ''9'', ''0oi8''), (CHR ''0'', ''po9''), (CHR ''q'', ''12wa''), (CHR ''w'', ''3esaq2''),
      (CHR ''e'', ''4rdsw3''), (CHR ''r'', ''5tfde4''), (CHR ''t'', ''6ygfr5''), (CHR ''y'', ''7uhgt6''),
      (CHR ''u'', ''8ijhy7''), (CHR ''i'', ''9okju8''), (CHR ''o'', ''0plki9''), (CHR ''p'', ''lo0''),
      (CHR ''a'', ''qwsz''), (CHR ''s'', ''edxzaw''), (CHR ''d'', ''rfcxse''), (CHR ''f'', ''tgvcdr''),
      (CHR ''g'', ''yhbvft''), (CHR ''h'', ''ujnbgy''), (CHR ''j'', ''ikmnhu''), (CHR ''k'', ''olmji''),
      (CHR ''l'', ''kop''), (CHR ''z'', ''asx''), (CHR ''x'', ''zsdc''), (CHR ''c'', ''xdfv''),
      (CHR ''v'', ''cfgb''), (CHR ''b'', ''vghn''), (CHR ''n'', ''bhjm''), (CHR ''m'', ''njk'')]"

definition qwertz :: "nat \<Rightarrow> ustr option" where
  "qwertz = keys_of
     [(CHR ''1'', ''2q''), (CHR ''2'', ''3wq1''), (CHR ''3'', ''4ew2''), (CHR ''4'', ''5re3''),
      (CHR ''5'', ''6tr4''), (CHR ''6'', ''7zt5''), (CHR ''7'', ''8uz6''), (CHR ''8'', ''9iu7''),
      (CHR ''9'', ''0oi8''), (CHR ''0'', ''po9''), (CHR ''q'', ''12wa''), (CHR ''w'', ''3esaq2''),
      (CHR ''e'', ''4rdsw3''), (CHR ''r'', ''5tfde4''), (CHR ''t'', ''6zgfr5''), (CHR ''z'', ''7uhgt6''),
      (CHR ''u'', ''8ijhz7''), (CHR ''i'', ''9okju8''), (CHR ''o'', ''0plki9''), (CHR ''p'', ''lo0''),
      (CHR ''a'', ''qwsy''), (CHR ''s'', ''edxyaw''), (CHR ''d'', ''rfcxse''), (CHR ''f'', ''tgvcdr''),
      (CHR ''g'', ''zhbvft''), (CHR ''h'', ''ujnbgz''), (CHR ''j'', ''ikmnhu''), (CHR ''k'', ''olmji''),
      (CHR ''l'', ''kop''), (CHR ''y'', ''asx''), (CHR ''x'', ''ysdc''), (CHR ''c'', ''xdfv''),
      (CHR ''v'', ''cfgb''), (CHR ''b'', ''vghn''), (CHR ''n'', ''bhjm''), (CHR ''m'', ''njk'')]"

definition azerty :: "nat \<Rightarrow> ustr option" where
  "azerty = keys_of
     [(CHR ''1'', ''2a''), (CHR ''2'', ''3za1''), (CHR ''3'', ''4ez2''), (CHR ''4'', ''5re3''),
      (CHR ''5'', ''6tr4''), (CHR ''6'', ''7yt5''), (CHR ''7'', ''8uy6''), (CHR ''8'', ''9iu7''),
      (CHR ''9'', ''0oi8''), (CHR ''0'', ''po9''), (CHR ''a'', ''2zq1''), (CHR ''z'', ''3esqa2''),
      (CHR ''e'', ''4rdsz3''), (CHR ''r'', ''5tfde4''), (CHR ''t'', ''6ygfr5''), (CHR ''y'', ''7uhgt6''),
      (CHR ''u'', ''8ijhy7''), (CHR ''i'', ''9okju8''), (CHR ''o'', ''0plki9''), (CHR ''p'', ''lo0m''),
      (CHR ''q'', ''zswa''), (CHR ''s'', ''edxwqz''), (CHR ''d'', ''rfcxse''), (CHR ''f'', ''tgvcdr''),
      (CHR ''g'', ''yhbvft''), (CHR ''h'', ''ujnbgy''), (CHR ''j'', ''iknhu''), (CHR ''k'', ''olji''),
      (CHR ''l'', ''kopm''), (CHR ''m'', ''lp''), (CHR ''w'', ''sxq''), (CHR ''x'', ''wsdc''),
      (CHR ''c'', ''xdfv''), (CHR ''v'', ''cfgb''), (CHR ''b'', ''vghn''), (CHR ''n'', ''bhj'')]"

definition keyboards :: "(nat \<Rightarrow> ustr option) list" where
  "keyboards = [qwerty, qwertz, azerty]"

subsection \<open>The validator and the filter\<close>

text \<open>
  \<open>__validate_domain\<close> matches the IDNA form of the name against
  \<^verbatim>\<open>(?=^.{4,253}$)(^((?!-)[a-zA-Z0-9-]{1,63}(?<!-)\.)+[a-zA-Z]{2,63}\.?$)\<close>
  with \<open>re.IGNORECASE\<close>, after rejecting a name whose IDNA form differs from it while
  having its length.
\<close>

definition fuzz_allowed :: rexp where
  "fuzz_allowed =
     seqs (Ahead (seqs Caret [Rep any_char 4 (Some 253), Dollar]))
       [Caret,
        Plus (seqs (NotAhead (Chr CHR ''-''))
                [Rep (Cls (letter_i @ digit @ [(hyphen, hyphen)])) 1 (Some 63),
                 NotBehind [(hyphen, hyphen)],
                 Chr CHR ''.'']),
        Rep (Cls letter_i) 2 (Some 63),
        Opt (Chr CHR ''.''),
        Dollar]"

definition validate_domain :: "stdlib \<Rightarrow> ustr \<Rightarrow> bool" where
  "validate_domain lib domain =
     (case idna_encode lib domain of
        None \<Rightarrow> False
      | Some domain_idna \<Rightarrow>
          if length domain = length domain_idna \<and> domain \<noteq> domain_idna then False
          else re_match fuzz_allowed domain_idna \<noteq> None)"

text \<open>
  \<open>__filter_domains\<close>:
  \<^verbatim>\<open>
    seen = set()
    filtered = []
    for d in self.domains:
        if self.__validate_domain(d["domain-name"]) and d["domain-name"] not in seen:
            seen.add(d["domain-name"])
            filtered.append(d)
    self.domains = filtered
  \<close>
\<close>

definition filter_step :: "stdlib \<Rightarrow> candidate \<Rightarrow> ustr set \<times> candidate list \<Rightarrow> ustr set \<times> candidate list" where
  "filter_step lib d sf =
     (if validate_domain lib (domain_name d) \<and> domain_name d \<notin> fst sf
      then (insert (domain_name d) (fst sf), snd sf @ [d])
      else sf)"

definition filter_domains :: "stdlib \<Rightarrow> candidate list \<Rightarrow> candidate list" where
  "filter_domains lib ds = snd (fold (filter_step lib) ds ({}, []))"

subsection \<open>The strategies\<close>

definition addition :: "ustr \<Rightarrow> ustr list" where
  "addition d = fold (\<lambda>i result. result @ [d @ [i]]) (py_range 97 123) []"

definition masks :: "nat list" where
  "masks = [1, 2, 4, 8, 16, 32, 64, 128]"

text \<open>
  \<open>__bitsquatting\<close>: \<open>b = chr(ord(c) ^ masks[j])\<close> and \<open>o = ord(b)\<close> (written \<open>ob\<close>), so
  both are the code point of \<open>c\<close> with one bit flipped.
\<close>

definition bitsquatting :: "ustr \<Rightarrow> ustr list" where
  "bitsquatting d =
     fold (\<lambda>i result.
        fold (\<lambda>j result.
           let b = xor (d ! i) (masks ! j); ob = b in
           if (48 \<le> ob \<and> ob \<le> 57) \<or> (97 \<le> ob \<and> ob \<le> 122) \<or> ob = 45
           then result @ [take i d @ [b] @ drop (i + 1) d]
           else result)
         (py_range 0 (int (length masks))) result)
      (py_range 0 (int (length d))) []"

text \<open>The table of \<open>__homoglyph\<close>, each glyph as its code points.\<close>

definition glyphs :: "nat \<Rightarrow> ustr list option" where
  "glyphs = map_of (map (\<lambda>kv. (ord (fst kv), snd kv))
   [
    (CHR ''a'', [[224], [225], [226], [227], [228], [229], [593], [7841], [462], [259], [551],
       [261]]),
    (CHR ''b'', [[100], [108, 98], [665], [595], [7683], [7685], [7687], [389]]),
    (CHR ''c'', [[101], [392], [267], [263], [231], [269], [265]]),
    (CHR ''d'', [[98], [99, 108], [100, 108], [599], [273], [271], [598], [7697], [7691],
       [7693], [7695], [7699]]),
    (CHR ''e'', [[99], [233], [232], [234], [235], [275], [277], [283], [279], [7865], [281],
       [553], [583], [7707]]),
    (CHR ''f'', [[402], [7711]]),
    (CHR ''g'', [[113], [610], [609], [289], [287], [501], [291], [285], [487], [485]]),
    (CHR ''h'', [[108, 104], [293], [543], [295], [614], [7719], [7721], [11368], [7715],
       [7717], [7723], [7830]]),
    (CHR ''i'', [[49], [108], [237], [236], [239], [305], [617], [464], [301], [7881], [7883],
       [616], [523], [299]]),
    (CHR ''j'', [[669], [585]]),
    (CHR ''k'', [[108, 107], [105, 107], [108, 99], [7731], [7733], [11370], [311]]),
    (CHR ''l'', [[49], [105], [619], [322]]),
    (CHR ''m'', [[110], [110, 110], [114, 110], [114, 114], [7745], [7747], [7437], [625],
       [7743]]),
    (CHR ''n'', [[109], [114], [324], [7749], [7751], [7753], [241], [326], [505], [328],
       [42897]]),
    (CHR ''o'', [[48], [559], [7885], [7887], [417], [243], [246]]),
    (CHR ''p'', [[447], [421], [7765], [7767]]),
    (CHR ''q'', [[103], [672]]),
    (CHR ''r'', [[640], [636], [637], [341], [343], [345], [589], [638], [531], [529], [7769],
       [7771], [7775]]),
    (CHR ''s'', [[642], [347], [7779], [7777], [537], [349], [353]]),
    (CHR ''t'', [[355], [359], [7787], [7789], [539], [427]]),
    (CHR ''u'', [[7452], [468], [365], [252], [649], [249], [250], [251], [361], [363], [371],
       [432], [367], [369], [533], [535], [7909]]),
    (CHR ''v'', [[7807], [11377], [7564], [7805], [11380]]),
    (CHR ''w'', [[118, 118], [373], [7809], [7811], [7813], [11379], [7815], [7817], [7832]]),
    (CHR ''y'', [[655], [253], [255], [375], [436], [563], [591], [7935], [7823], [7925]]),
    (CHR ''z'', [[656], [380], [378], [7458], [438], [7827], [7829], [11372]])])"

text \<open>
  One pass of \<open>__homoglyph\<close> over a string: every window width \<open>ws\<close>, every window start
  \<open>i\<close>, every character \<open>c = win[j]\<close> of the window that has glyphs, every glyph \<open>g\<close> of it:
  the string with \<open>c\<close> replaced by \<open>g\<close> throughout the window. The source collects the
  results of the pass in a set.
\<close>

definition homoglyph_pass :: "ustr \<Rightarrow> ustr list" where
  "homoglyph_pass d =
     fold (\<lambda>ws result.
        fold (\<lambda>i result.
           let win = take ws (drop i d) in
           fold (\<lambda>j result.
              let c = win ! j in
              (case glyphs c of
                 None \<Rightarrow> result
               | Some gs \<Rightarrow>
                   fold (\<lambda>g result. result @ [take i d @ replace c g win @ drop (i + ws) d])
                        gs result))
            (py_range 0 (int ws)) result)
         (py_range 0 (int (length d) - int ws + 1)) result)
      (py_range 1 (int (length d))) []"

definition homoglyph :: "ustr \<Rightarrow> ustr list" where
  "homoglyph d =
     (let result_1pass = list_of_set (homoglyph_pass d);
          result_2pass = list_of_set (concat (map homoglyph_pass result_1pass))
      in list_of_set (result_1pass @ result_2pass))"

definition hyphenation :: "ustr \<Rightarrow> ustr list" where
  "hyphenation d =
     fold (\<lambda>i result. result @ [take i d @ [hyphen] @ drop i d]) (py_range 1 (int (length d))) []"

definition insertion :: "ustr \<Rightarrow> ustr list" where
  "insertion d =
     list_of_set
       (fold (\<lambda>i result.
           fold (\<lambda>keys result.
              (case keys (d ! i) of
                 None \<Rightarrow> result
               | Some ks \<Rightarrow>
                   fold (\<lambda>c result.
                           result @ [take i d @ [c] @ [d ! i] @ drop (i + 1) d]
                                  @ [take i d @ [d ! i] @ [c] @ drop (i + 1) d])
                        ks result))
            keyboards result)
         (py_range 1 (int (length d) - 1)) [])"

text \<open>
  \<open>re.sub(r"(.)\1+", r"\1", s)\<close>: every run of one character, the newline apart (\<open>.\<close> does
  not match it), is cut down to a single character.
\<close>

fun collapse_runs :: "ustr \<Rightarrow> ustr" where
  "collapse_runs (x # y # ys) =
     (if x = y \<and> x \<noteq> newline then collapse_runs (y # ys) else x # collapse_runs (y # ys))"
| "collapse_runs xs = xs"

definition omission :: "ustr \<Rightarrow> ustr list" where
  "omission d =
     (let result = fold (\<lambda>i result. result @ [take i d @ drop (i + 1) d])
                        (py_range 0 (int (length d))) [];
          n = collapse_runs d
      in list_of_set (if n \<notin> set result \<and> n \<noteq> d then result @ [n] else result))"

definition repetition :: "stdlib \<Rightarrow> ustr \<Rightarrow> ustr list" where
  "repetition lib d =
     list_of_set
       (fold (\<lambda>i result.
           if isalpha lib (d ! i)
           then result @ [take i d @ [d ! i] @ [d ! i] @ drop (i + 1) d]
           else result)
         (py_range 0 (int (length d))) [])"

definition replacement :: "ustr \<Rightarrow> ustr list" where
  "replacement d =
     list_of_set
       (fold (\<lambda>i result.
           fold (\<lambda>keys result.
              (case keys (d ! i) of
                 None \<Rightarrow> result
               | Some ks \<Rightarrow>
                   fold (\<lambda>c result. result @ [take i d @ [c] @ drop (i + 1) d]) ks result))
            keyboards result)
         (py_range 0 (int (length d))) [])"

text \<open>
  \<open>__subdomain\<close>:
  \<^verbatim>\<open>
    for i in range(1, len(self.domain) - 3):
        if self.domain[i] not in ["-", "."] and self.domain[i - 1] not in ["-", "."]:
            result.append(self.domain[:i] + "." + self.domain[i:])
  \<close>
\<close>

definition subdomain :: "ustr \<Rightarrow> ustr list" where
  "subdomain d =
     fold (\<lambda>i result.
             if d ! i \<notin> {hyphen, dot} \<and> d ! (i - 1) \<notin> {hyphen, dot}
             then result @ [take i d @ [dot] @ drop i d]
             else result)
          (py_range 1 (int (length d) - 3)) []"

text \<open>
  \<open>__transposition\<close>:
  \<^verbatim>\<open>
    for i in range(0, len(self.domain) - 1):
        if self.domain[i + 1] != self.domain[i]:
            result.append(self.domain[:i] + self.domain[i + 1] + self.domain[i]
                          + self.domain[i + 2 :])
  \<close>
\<close>

definition transposition :: "ustr \<Rightarrow> ustr list" where
  "transposition d =
     fold (\<lambda>i result.
             if d ! (i + 1) \<noteq> d ! i
             then result @ [take i d @ [d ! (i + 1)] @ [d ! i] @ drop (i + 2) d]
             else result)
          (py_range 0 (int (length d) - 1)) []"

definition vowels :: ustr where
  "vowels = u ''aeiou''"

definition vowel_swap :: "ustr \<Rightarrow> ustr list" where
  "vowel_swap d =
     list_of_set
       (fold (\<lambda>i result.
           fold (\<lambda>vowel result.
              if d ! i \<in> set vowels
              then result @ [take i d @ [vowel] @ drop (i + 1) d]
              else result)
            vowels result)
         (py_range 0 (int (length d))) [])"

subsection \<open>generate\<close>

text \<open>
  Every candidate but the four of \<open>Various\<close> is named
  \<open>".".join(filter(None, [self.subdomain, domain, self.tld]))\<close>.
\<close>

definition reassemble :: "ustr \<Rightarrow> ustr \<Rightarrow> ustr \<Rightarrow> ustr" where
  "reassemble sub d t = join [dot] (filter_None [sub, d, t])"

definition emit :: "domain_fuzz \<Rightarrow> string \<Rightarrow> ustr list \<Rightarrow> candidate list" where
  "emit f tag ds = map (\<lambda>d. entry tag (reassemble (fz_subdomain f) d (fz_tld f))) ds"

definition various :: "domain_fuzz \<Rightarrow> candidate list" where
  "various f =
     (if dot \<in> set (fz_tld f)
      then [entry ''Various'' (fz_domain f @ [dot] @ last (py_split dot (fz_tld f))),
            entry ''Various'' (fz_domain f @ fz_tld f)]
      else [])
     @ (if dot \<notin> set (fz_tld f)
        then [entry ''Various'' (fz_domain f @ fz_tld f @ [dot] @ fz_tld f)]
        else [])
     @ (if fz_tld f \<noteq> u ''com'' \<and> dot \<notin> set (fz_tld f)
        then [entry ''Various'' (fz_domain f @ [hyphen] @ fz_tld f @ u ''.com'')]
        else [])"

text \<open>The list \<open>generate\<close> has appended to \<open>self.domains\<close> when it calls the filter.\<close>

definition emitted :: "stdlib \<Rightarrow> domain_fuzz \<Rightarrow> candidate list" where
  "emitted lib f =
     fz_domains f
     @ [entry ''Original*'' (reassemble (fz_subdomain f) (fz_domain f) (fz_tld f))]
     @ emit f ''Addition'' (addition (fz_domain f))
     @ emit f ''Bitsquatting'' (bitsquatting (fz_domain f))
     @ emit f ''Homoglyph'' (homoglyph (fz_domain f))
     @ emit f ''Hyphenation'' (hyphenation (fz_domain f))
     @ emit f ''Insertion'' (insertion (fz_domain f))
     @ emit f ''Omission'' (omission (fz_domain f))
     @ emit f ''Repetition'' (repetition lib (fz_domain f))
     @ emit f ''Replacement'' (replacement (fz_domain f))
     @ emit f ''Subdomain'' (subdomain (fz_domain f))
     @ emit f ''Transposition'' (transposition (fz_domain f))
     @ emit f ''Vowel-swap'' (vowel_swap (fz_domain f))
     @ various f"

definition generate :: "stdlib \<Rightarrow> domain_fuzz \<Rightarrow> domain_fuzz" where
  "generate lib f = f\<lparr>fz_domains := filter_domains lib (emitted lib f)\<rparr>"

section \<open>DomainDict and TldDict\<close>

text \<open>
  The two expanders are \<open>DomainFuzz\<close> objects with a word list. \<open>load_dict\<close> keeps the
  lines that are alphabetic and new; their \<open>generate\<close> appends to \<open>self.domains\<close> and
  does not call the filter.
\<close>

record domain_dict = domain_fuzz +
  dictionary :: "ustr list"

definition DomainDict :: "ustr \<Rightarrow> ustr \<Rightarrow> ustr \<Rightarrow> domain_dict" where
  "DomainDict sub d t =
     \<lparr>fz_subdomain = sub, fz_domain = d, fz_tld = t, fz_domains = [], dictionary = []\<rparr>"

definition strip_newlines :: "ustr \<Rightarrow> ustr" where
  "strip_newlines w = rev (dropWhile (\<lambda>c. c = newline) (rev (dropWhile (\<lambda>c. c = newline) w)))"

definition load_dict :: "stdlib \<Rightarrow> ustr list \<Rightarrow> domain_dict \<Rightarrow> domain_dict" where
  "load_dict lib file_lines f =
     fold (\<lambda>line f.
             let word = strip_newlines line in
             if word \<noteq> [] \<and> list_all (isalpha lib) word \<and> word \<notin> set (dictionary f)
             then f\<lparr>dictionary := dictionary f @ [word]\<rparr>
             else f)
          file_lines f"

definition dictionary_words :: "domain_dict \<Rightarrow> ustr list" where
  "dictionary_words f =
     fold (\<lambda>word result.
             result @ [fz_domain f @ [hyphen] @ word] @ [fz_domain f @ word]
                    @ [word @ [hyphen] @ fz_domain f] @ [word @ fz_domain f])
          (dictionary f) []"

definition DomainDict_generate :: "domain_dict \<Rightarrow> domain_dict" where
  "DomainDict_generate f =
     f\<lparr>fz_domains := fz_domains f
          @ map (\<lambda>d. entry ''Dictionary'' (reassemble (fz_subdomain f) d (fz_tld f)))
                (dictionary_words f)\<rparr>"

definition TldDict_generate :: "domain_dict \<Rightarrow> domain_dict" where
  "TldDict_generate f =
     (let f = (if fz_tld f \<in> set (dictionary f)
               then f\<lparr>dictionary := remove1 (fz_tld f) (dictionary f)\<rparr> else f)
      in f\<lparr>fz_domains := fz_domains f
              @ map (\<lambda>t. entry ''TLD-swap'' (reassemble (fz_subdomain f) (fz_domain f) t))
                    (dictionary f)\<rparr>)"

text \<open>
  The candidate list \<open>main\<close> builds for the three parts of the input domain: the list
  of \<open>DomainFuzz.generate\<close>, then the entries of \<open>DomainDict\<close> when a dictionary file is
  given, then those of \<open>TldDict\<close> when a TLD file is given (\<open>domains += ddict.domains\<close>).
\<close>

definition main_domains ::
  "stdlib \<Rightarrow> ustr \<Rightarrow> ustr \<Rightarrow> ustr \<Rightarrow> ustr list option \<Rightarrow> ustr list option \<Rightarrow> candidate list" where
  "main_domains lib sub d t dict_file tld_file =
     fz_domains (generate lib (DomainFuzz sub d t))
     @ (case dict_file of
          None \<Rightarrow> []
        | Some file_lines \<Rightarrow>
            fz_domains (DomainDict_generate (load_dict lib file_lines (DomainDict sub d t))))
     @ (case tld_file of
          None \<Rightarrow> []
        | Some file_lines \<Rightarrow>
            fz_domains (TldDict_generate (load_dict lib file_lines (DomainDict sub d t))))"

section \<open>DomainThread\<close>

subsection \<open>Exceptions, the network, and the state of a worker\<close>

text \<open>
  The exceptions the program raises or lets through: \<open>UnicodeError\<close> of the \<open>idna\<close>
  codec, \<open>KeyError\<close> of a dictionary without the key, \<open>IndexError\<close> of \<open>xs[0]\<close> on an
  empty list, \<open>UnboundLocalError\<close> of a local variable read before it is assigned, and
  the \<open>ValueError\<close> of \<open>UrlParser\<close>.
\<close>

datatype py_error =
    UnicodeError
  | KeyError string
  | IndexError
  | UnboundLocalError string
  | ValueError string

datatype rdtype = NS | A | AAAA | MX

text \<open>
  What \<open>resolv.query\<close> does, as the \<open>except\<close> clauses of \<open>run\<close> tell it apart: it
  returns the answer (each record as \<open>str\<close> prints it), or raises \<open>NXDOMAIN\<close>,
  \<open>NoNameservers\<close>, or another \<open>DNSException\<close>. \<open>socket.getaddrinfo\<close> returns the
  addresses \<open>j[4][0]\<close> of its tuples, or raises \<open>gaierror\<close> with an \<open>errno\<close>, or another
  exception.
\<close>

datatype dns_result = Answer "ustr list" | NXDOMAIN | NoNameservers | DNSException

datatype gai_result = Addresses "ustr list" | Gaierror int | GaiException

text \<open>
  The network and the optional modules, as functions of what the worker sends. \<open>None\<close>
  is an exception inside the \<open>try\<close> of the probe.
  \<^item> \<open>smtp_session mx from to\<close>: \<open>smtplib.SMTP\<close>, \<open>sendmail\<close> and \<open>quit\<close> all went through;
  \<^item> \<open>randint_from\<close>, \<open>randint_to\<close>: the two draws of \<open>randint(1, 9)\<close> in \<open>__mxcheck\<close>;
  \<^item> \<open>whois_query name\<close>: \<open>str(creation_date)\<close> and \<open>str(last_updated)\<close>;
  \<^item> \<open>country_name_by_addr ip\<close>: the country name, which may be \<open>None\<close>;
  \<^item> \<open>http_head ip vhost\<close>: the decoded answer to the \<open>HEAD\<close> request on port 80;
  \<^item> \<open>smtp_greeting mx\<close>: the decoded greeting on port 25;
  \<^item> \<open>requests_get url\<close>: the status code and \<open>ssdeep.hash\<close> of the body;
  \<^item> \<open>ssdeep_compare\<close>: the score of two hashes.
\<close>

record network =
  resolv_query :: "ustr \<Rightarrow> rdtype \<Rightarrow> dns_result"
  getaddrinfo :: "ustr \<Rightarrow> gai_result"
  smtp_session :: "ustr \<Rightarrow> ustr \<Rightarrow> ustr \<Rightarrow> bool"
  randint_from :: nat
  randint_to :: nat
  whois_query :: "ustr \<Rightarrow> (ustr \<times> ustr) option"
  country_name_by_addr :: "ustr \<Rightarrow> ustr option option"
  http_head :: "ustr \<Rightarrow> ustr \<Rightarrow> ustr option"
  smtp_greeting :: "ustr \<Rightarrow> ustr option"
  requests_get :: "ustr \<Rightarrow> (int \<times> ustr) option"
  ssdeep_compare :: "ustr \<Rightarrow> ustr \<Rightarrow> int"

text \<open>
  The operations on the network a worker performs, logged in order.
\<close>

datatype event =
    Query rdtype
  | GetAddrInfo
  | MxCheck ustr ustr ustr
  | Whois
  | GeoIP
  | BannerHttp ustr ustr
  | BannerSmtp ustr
  | HttpGet ustr
  | TaskDone

text \<open>
  The fields of a \<open>DomainThread\<close>. \<open>run\<close> compares \<open>domain["domain-name"]\<close> with
  \<open>self.domain_orig\<close> by \<open>is not\<close>, the identity of the two string objects, so
  \<open>domain_orig\<close> is the pair of the object's identity and its text.
\<close>

record domain_thread =
  kill_received :: bool
  ssdeep_orig :: ustr
  domain_orig :: "nat \<times> ustr"
  uri_scheme :: ustr
  uri_path :: ustr
  uri_query :: ustr
  option_extdns :: bool
  option_geoip :: bool
  option_whois :: bool
  option_ssdeep :: bool
  option_banners :: bool
  option_mxcheck :: bool

text \<open>
  The five local flags of \<open>run\<close>. A local variable that has not been assigned is \<open>None\<close>;
  the locals live across the rounds of the \<open>while\<close> loop.
\<close>

record locals =
  l_nxdomain :: "bool option"
  l_dns_ns :: "bool option"
  l_dns_a :: "bool option"
  l_dns_aaaa :: "bool option"
  l_dns_mx :: "bool option"

definition unbound :: locals where
  "unbound = \<lparr>l_nxdomain = None, l_dns_ns = None, l_dns_a = None, l_dns_aaaa = None,
              l_dns_mx = None\<rparr>"

text \<open>
  The state of one round: the candidate \<open>domain\<close>, the identity of the string object
  that \<open>domain["domain-name"]\<close> is bound to once the round has encoded it, the locals,
  the log, the next identity a new object gets, and the exception raised, if any.
\<close>

record wstate =
  cand :: candidate
  name_id :: nat
  vars :: locals
  log :: "event list"
  next_id :: nat
  raised :: "py_error option"

text \<open>
  Statements in sequence: after an exception the rest is skipped.
\<close>

definition steps :: "(wstate \<Rightarrow> wstate) list \<Rightarrow> wstate \<Rightarrow> wstate" where
  "steps fs s = fold (\<lambda>f s. if raised s = None then f s else s) fs s"

definition raise :: "py_error \<Rightarrow> wstate \<Rightarrow> wstate" where
  "raise e s = s\<lparr>raised := Some e\<rparr>"

definition emit_event :: "event \<Rightarrow> wstate \<Rightarrow> wstate" where
  "emit_event e s = s\<lparr>log := log s @ [e]\<rparr>"

subsection \<open>Helpers\<close>

text \<open>\<open>s.strip()\<close> strips the Unicode white space.\<close>

definition strip_space :: "ustr \<Rightarrow> ustr" where
  "strip_space s = strip_chars (in_cls space) s"

text \<open>
  \<open>xs[0]\<close> of a list stored under a key of the candidate: \<open>KeyError\<close> without the key,
  \<open>IndexError\<close> on the empty list.
\<close>

definition first_of :: "string \<Rightarrow> ustr list option \<Rightarrow> py_error + ustr" where
  "first_of key v =
     (case v of
        None \<Rightarrow> Inl (KeyError key)
      | Some [] \<Rightarrow> Inl IndexError
      | Some (x # xs) \<Rightarrow> Inr x)"

text \<open>
  \<open>answer_to_list\<close>: each record without its enclosing dots, the second word of it when
  it has more than one (the exchange of an MX record), sorted.
\<close>

definition answer_to_list :: "ustr list \<Rightarrow> ustr list" where
  "answer_to_list answers =
     sort (map (\<lambda>record.
                  if length (split_str (u '' '') record) = 1 then strip_dots record
                  else strip_dots (split_str (u '' '') record ! 1))
               answers)"

definition ServFail :: "ustr list" where
  "ServFail = [u ''!ServFail'']"

text \<open>
  \<open>__banner_http\<close>, \<open>__banner_smtp\<close> and \<open>__mxcheck\<close>. A function that falls off its end
  returns \<open>None\<close>.
\<close>

definition crlf :: ustr where
  "crlf = [13, 10]"

definition banner_http_fn :: "network \<Rightarrow> ustr \<Rightarrow> ustr \<Rightarrow> ustr option" where
  "banner_http_fn net ip vhost =
     (case http_head net ip vhost of
        None \<Rightarrow> None
      | Some response \<Rightarrow>
          let sep = (if contains crlf response then crlf else [newline]);
              headers = split_str sep response
          in (case filter (startswith (u ''Server: '')) headers of
                field # _ \<Rightarrow> Some (drop 8 field)
              | [] \<Rightarrow>
                  let banner = split_str (u '' '') (hd headers)
                  in if length banner > 1 then Some (u ''HTTP '' @ banner ! 1) else None))"

definition banner_smtp_fn :: "network \<Rightarrow> ustr \<Rightarrow> ustr option" where
  "banner_smtp_fn net mx =
     (case smtp_greeting net mx of
        None \<Rightarrow> None
      | Some response \<Rightarrow>
          let sep = (if contains crlf response then crlf else [newline]);
              hello = hd (split_str sep response)
          in if startswith (u ''220'') hello then Some (strip_space (drop 4 hello))
             else Some (take 40 hello))"

definition mxcheck_from :: "network \<Rightarrow> ustr \<Rightarrow> ustr" where
  "mxcheck_from net from_domain = u ''randombob'' @ str_nat (randint_from net) @ u ''@'' @ from_domain"

definition mxcheck_to :: "network \<Rightarrow> ustr \<Rightarrow> ustr" where
  "mxcheck_to net to_domain = u ''randomalice'' @ str_nat (randint_to net) @ u ''@'' @ to_domain"

definition mxcheck :: "network \<Rightarrow> ustr \<Rightarrow> ustr \<Rightarrow> ustr \<Rightarrow> bool" where
  "mxcheck net mx from_domain to_domain =
     smtp_session net mx (mxcheck_from net from_domain) (mxcheck_to net to_domain)"

subsection \<open>Reading the locals\<close>

text \<open>
  \<open>v is True\<close> and \<open>v is False\<close> of a local flag raise \<open>UnboundLocalError\<close> when \<open>v\<close> has
  not been assigned; \<open>and\<close> and \<open>or\<close> read their right operand only when the left one
  does not decide; \<open>py_if\<close> runs the body when the condition holds and raises what the
  condition raised.
\<close>

definition is_True :: "string \<Rightarrow> bool option \<Rightarrow> py_error + bool" where
  "is_True name v = (case v of None \<Rightarrow> Inl (UnboundLocalError name) | Some b \<Rightarrow> Inr b)"

definition is_False :: "string \<Rightarrow> bool option \<Rightarrow> py_error + bool" where
  "is_False name v = (case v of None \<Rightarrow> Inl (UnboundLocalError name) | Some b \<Rightarrow> Inr (\<not> b))"

definition py_and :: "py_error + bool \<Rightarrow> py_error + bool \<Rightarrow> py_error + bool" where
  "py_and a b = (case a of Inl e \<Rightarrow> Inl e | Inr x \<Rightarrow> if x then b else Inr False)"

definition py_or :: "py_error + bool \<Rightarrow> py_error + bool \<Rightarrow> py_error + bool" where
  "py_or a b = (case a of Inl e \<Rightarrow> Inl e | Inr x \<Rightarrow> if x then Inr True else b)"

definition py_if :: "(wstate \<Rightarrow> py_error + bool) \<Rightarrow> (wstate \<Rightarrow> wstate) \<Rightarrow> wstate \<Rightarrow> wstate" where
  "py_if c body s =
     (case c s of Inl e \<Rightarrow> raise e s | Inr x \<Rightarrow> if x then body s else s)"

subsection \<open>The round of \<open>run\<close>, block by block\<close>

text \<open>
  \<^verbatim>\<open>domain["domain-name"] = domain["domain-name"].encode("idna").decode()\<close>
  The decoded name is a new string object (CPython shares only the empty string and
  the strings of one character, which are no domain names).
\<close>

definition idna_step :: "stdlib \<Rightarrow> wstate \<Rightarrow> wstate" where
  "idna_step lib s =
     (case idna_encode lib (domain_name (cand s)) of
        None \<Rightarrow> raise UnicodeError s
      | Some n \<Rightarrow> s\<lparr>cand := (cand s)\<lparr>domain_name := n\<rparr>, name_id := next_id s,
                     next_id := next_id s + 1\<rparr>)"

text \<open>
  The four queries of the resolver branch. Each \<open>try\<close> stores the answer and sets its
  flag; \<open>NoNameservers\<close> stores the sentinel; \<open>NXDOMAIN\<close> has a clause of its own for NS
  only and is a \<open>DNSException\<close> like any other for A, AAAA and MX.
  \<^verbatim>\<open>
    try:
        domain["dns-ns"] = self.answer_to_list(resolv.query(domain["domain-name"], rdtype=NS))
        dns_ns = True
    except dns.resolver.NXDOMAIN:
        nxdomain = True
    except dns.resolver.NoNameservers:
        domain["dns-ns"] = ["!ServFail"]
    except DNSException:
        pass
  \<close>
\<close>

definition resolve_ns :: "network \<Rightarrow> wstate \<Rightarrow> wstate" where
  "resolve_ns net s0 =
     (let s = emit_event (Query NS) s0 in
      case resolv_query net (domain_name (cand s)) NS of
        Answer xs \<Rightarrow> s\<lparr>cand := (cand s)\<lparr>dns_ns := Some (answer_to_list xs)\<rparr>,
                       vars := (vars s)\<lparr>l_dns_ns := Some True\<rparr>\<rparr>
      | NXDOMAIN \<Rightarrow> s\<lparr>vars := (vars s)\<lparr>l_nxdomain := Some True\<rparr>\<rparr>
      | NoNameservers \<Rightarrow> s\<lparr>cand := (cand s)\<lparr>dns_ns := Some ServFail\<rparr>\<rparr>
      | DNSException \<Rightarrow> s)"

definition resolve_a :: "network \<Rightarrow> wstate \<Rightarrow> wstate" where
  "resolve_a net s0 =
     (let s = emit_event (Query A) s0 in
      case resolv_query net (domain_name (cand s)) A of
        Answer xs \<Rightarrow> s\<lparr>cand := (cand s)\<lparr>dns_a := Some (answer_to_list xs)\<rparr>,
                       vars := (vars s)\<lparr>l_dns_a := Some True\<rparr>\<rparr>
      | NoNameservers \<Rightarrow> s\<lparr>cand := (cand s)\<lparr>dns_a := Some ServFail\<rparr>\<rparr>
      | NXDOMAIN \<Rightarrow> s
      | DNSException \<Rightarrow> s)"

definition resolve_aaaa :: "network \<Rightarrow> wstate \<Rightarrow> wstate" where
  "resolve_aaaa net s0 =
     (let s = emit_event (Query AAAA) s0 in
      case resolv_query net (domain_name (cand s)) AAAA of
        Answer xs \<Rightarrow> s\<lparr>cand := (cand s)\<lparr>dns_aaaa := Some (answer_to_list xs)\<rparr>,
                       vars := (vars s)\<lparr>l_dns_aaaa := Some True\<rparr>\<rparr>
      | NoNameservers \<Rightarrow> s\<lparr>cand := (cand s)\<lparr>dns_aaaa := Some ServFail\<rparr>\<rparr>
      | NXDOMAIN \<Rightarrow> s
      | DNSException \<Rightarrow> s)"

definition resolve_mx :: "network \<Rightarrow> wstate \<Rightarrow> wstate" where
  "resolve_mx net s0 =
     (let s = emit_event (Query MX) s0 in
      case resolv_query net (domain_name (cand s)) MX of
        Answer xs \<Rightarrow> s\<lparr>cand := (cand s)\<lparr>dns_mx := Some (answer_to_list xs)\<rparr>,
                       vars := (vars s)\<lparr>l_dns_mx := Some True\<rparr>\<rparr>
      | NoNameservers \<Rightarrow> s\<lparr>cand := (cand s)\<lparr>dns_mx := Some ServFail\<rparr>\<rparr>
      | NXDOMAIN \<Rightarrow> s
      | DNSException \<Rightarrow> s)"

text \<open>
  The resolver branch: the five flags are set to \<open>False\<close>, then
  \<^verbatim>\<open>
    (NS query)
    if nxdomain is False:
        (A query)
        (AAAA query)
    if nxdomain is False and dns_ns is True:
        (MX query)
  \<close>
\<close>

definition all_False :: locals where
  "all_False = \<lparr>l_nxdomain = Some False, l_dns_ns = Some False, l_dns_a = Some False,
                l_dns_aaaa = Some False, l_dns_mx = Some False\<rparr>"

definition resolver_branch :: "network \<Rightarrow> wstate \<Rightarrow> wstate" where
  "resolver_branch net =
     steps
       [\<lambda>s. s\<lparr>vars := all_False\<rparr>,
        resolve_ns net,
        py_if (\<lambda>s. is_False ''nxdomain'' (l_nxdomain (vars s)))
              (steps [resolve_a net, resolve_aaaa net]),
        py_if (\<lambda>s. py_and (is_False ''nxdomain'' (l_nxdomain (vars s)))
                           (is_True ''dns_ns'' (l_dns_ns (vars s))))
              (resolve_mx net)]"

text \<open>
  Without the resolver module:
  \<^verbatim>\<open>
    try:
        ip = socket.getaddrinfo(domain["domain-name"], 80)
    except socket.gaierror as e:
        if e.errno == -3:
            domain["dns-a"] = ["!ServFail"]
    except Exception:
        pass
    else:
        (dns-a: the sorted addresses with a ".", dns-aaaa: those with a ":")
        dns_a = True
        dns_aaaa = True
  \<close>
  The other three flags are not assigned in this branch.
\<close>

definition getaddrinfo_branch :: "network \<Rightarrow> wstate \<Rightarrow> wstate" where
  "getaddrinfo_branch net s0 =
     (let s = emit_event GetAddrInfo s0 in
      case getaddrinfo net (domain_name (cand s)) of
        Gaierror errno \<Rightarrow>
          if errno = - 3 then s\<lparr>cand := (cand s)\<lparr>dns_a := Some ServFail\<rparr>\<rparr> else s
      | GaiException \<Rightarrow> s
      | Addresses ip \<Rightarrow>
          s\<lparr>cand := (cand s)\<lparr>dns_a := Some (sort (filter (\<lambda>j. dot \<in> set j) ip)),
                               dns_aaaa := Some (sort (filter (\<lambda>j. ord CHR '':'' \<in> set j) ip))\<rparr>,
            vars := (vars s)\<lparr>l_dns_a := Some True, l_dns_aaaa := Some True\<rparr>\<rparr>)"

definition dns_step :: "network \<Rightarrow> domain_thread \<Rightarrow> wstate \<Rightarrow> wstate" where
  "dns_step net w s = (if option_extdns w then resolver_branch net s else getaddrinfo_branch net s)"

text \<open>
  \<^verbatim>\<open>
    if self.option_mxcheck:
        if dns_mx is True:
            if domain["domain-name"] is not self.domain_orig:
                if self.__mxcheck(domain["dns-mx"][0], self.domain_orig, domain["domain-name"]):
                    domain["mx-spy"] = True
  \<close>
\<close>

definition mxcheck_probe :: "network \<Rightarrow> domain_thread \<Rightarrow> wstate \<Rightarrow> wstate" where
  "mxcheck_probe net w s =
     (case first_of ''dns-mx'' (dns_mx (cand s)) of
        Inl e \<Rightarrow> raise e s
      | Inr mx \<Rightarrow>
          let s' = emit_event (MxCheck mx (mxcheck_from net (snd (domain_orig w)))
                                         (mxcheck_to net (domain_name (cand s)))) s
          in if mxcheck net mx (snd (domain_orig w)) (domain_name (cand s))
             then s'\<lparr>cand := (cand s')\<lparr>mx_spy := Some True\<rparr>\<rparr>
             else s')"

definition mxcheck_step :: "network \<Rightarrow> domain_thread \<Rightarrow> wstate \<Rightarrow> wstate" where
  "mxcheck_step net w =
     (if option_mxcheck w
      then py_if (\<lambda>s. is_True ''dns_mx'' (l_dns_mx (vars s)))
             (py_if (\<lambda>s. Inr (name_id s \<noteq> fst (domain_orig w)))
                (mxcheck_probe net w))
      else (\<lambda>s. s))"

text \<open>
  \<^verbatim>\<open>
    if self.option_whois:
        if nxdomain is False and dns_ns is True:
            try:
                whoisdb = whois.query(domain["domain-name"])
                domain["whois-created"] = str(whoisdb.creation_date).split(" ")[0]
                domain["whois-updated"] = str(whoisdb.last_updated).split(" ")[0]
            except Exception:
                pass
  \<close>
\<close>

definition whois_probe :: "network \<Rightarrow> wstate \<Rightarrow> wstate" where
  "whois_probe net s0 =
     (let s = emit_event Whois s0 in
      case whois_query net (domain_name (cand s)) of
        None \<Rightarrow> s
      | Some dates \<Rightarrow>
          s\<lparr>cand := (cand s)\<lparr>whois_created := Some (hd (split_str (u '' '') (fst dates))),
                               whois_updated := Some (hd (split_str (u '' '') (snd dates)))\<rparr>\<rparr>)"

definition whois_step :: "network \<Rightarrow> domain_thread \<Rightarrow> wstate \<Rightarrow> wstate" where
  "whois_step net w =
     (if option_whois w
      then py_if (\<lambda>s. py_and (is_False ''nxdomain'' (l_nxdomain (vars s)))
                              (is_True ''dns_ns'' (l_dns_ns (vars s))))
             (whois_probe net)
      else (\<lambda>s. s))"

text \<open>
  \<^verbatim>\<open>
    if self.option_geoip:
        if dns_a is True:
            gi = GeoIP.new(GeoIP.GEOIP_MEMORY_CACHE)
            try:
                country = gi.country_name_by_addr(domain["dns-a"][0])
            except Exception:
                pass
            else:
                if country:
                    domain["geoip-country"] = country.split(",")[0]
  \<close>
  \<open>domain["dns-a"][0]\<close> is inside the \<open>try\<close> here.
\<close>

definition geoip_probe :: "network \<Rightarrow> wstate \<Rightarrow> wstate" where
  "geoip_probe net s =
     (case first_of ''dns-a'' (dns_a (cand s)) of
        Inl e \<Rightarrow> s
      | Inr ip \<Rightarrow>
          let s' = emit_event GeoIP s in
          (case country_name_by_addr net ip of
             None \<Rightarrow> s'
           | Some None \<Rightarrow> s'
           | Some (Some country) \<Rightarrow>
               if country \<noteq> []
               then s'\<lparr>cand := (cand s')\<lparr>geoip_country := Some (hd (split_str (u '','') country))\<rparr>\<rparr>
               else s'))"

definition geoip_step :: "network \<Rightarrow> domain_thread \<Rightarrow> wstate \<Rightarrow> wstate" where
  "geoip_step net w =
     (if option_geoip w
      then py_if (\<lambda>s. is_True ''dns_a'' (l_dns_a (vars s))) (geoip_probe net)
      else (\<lambda>s. s))"

text \<open>
  \<^verbatim>\<open>
    if self.option_banners:
        if dns_a is True or dns_aaaa is True:
            banner = self.__banner_http(domain["dns-a"][0], domain["domain-name"])
            if banner:
                domain["banner-http"] = banner
        if dns_mx is True:
            banner = self.__banner_smtp(domain["dns-mx"][0])
            if banner:
                domain["banner-smtp"] = banner
  \<close>
  The arguments of the two calls are evaluated outside any \<open>try\<close>.
\<close>

definition truthy :: "ustr option \<Rightarrow> bool" where
  "truthy b = (case b of None \<Rightarrow> False | Some x \<Rightarrow> x \<noteq> [])"

definition banner_http_probe :: "network \<Rightarrow> wstate \<Rightarrow> wstate" where
  "banner_http_probe net s =
     (case first_of ''dns-a'' (dns_a (cand s)) of
        Inl e \<Rightarrow> raise e s
      | Inr ip \<Rightarrow>
          let s' = emit_event (BannerHttp ip (domain_name (cand s))) s;
              banner = banner_http_fn net ip (domain_name (cand s))
          in if truthy banner then s'\<lparr>cand := (cand s')\<lparr>banner_http := banner\<rparr>\<rparr> else s')"

definition banner_smtp_probe :: "network \<Rightarrow> wstate \<Rightarrow> wstate" where
  "banner_smtp_probe net s =
     (case first_of ''dns-mx'' (dns_mx (cand s)) of
        Inl e \<Rightarrow> raise e s
      | Inr mx \<Rightarrow>
          let s' = emit_event (BannerSmtp mx) s;
              banner = banner_smtp_fn net mx
          in if truthy banner then s'\<lparr>cand := (cand s')\<lparr>banner_smtp := banner\<rparr>\<rparr> else s')"

definition banners_step :: "network \<Rightarrow> domain_thread \<Rightarrow> wstate \<Rightarrow> wstate" where
  "banners_step net w =
     (if option_banners w
      then steps
             [py_if (\<lambda>s. py_or (is_True ''dns_a'' (l_dns_a (vars s)))
                               (is_True ''dns_aaaa'' (l_dns_aaaa (vars s))))
                (banner_http_probe net),
              py_if (\<lambda>s. is_True ''dns_mx'' (l_dns_mx (vars s))) (banner_smtp_probe net)]
      else (\<lambda>s. s))"

text \<open>
  \<^verbatim>\<open>
    if self.option_ssdeep:
        if dns_a is True or dns_aaaa is True:
            try:
                req = requests.get(self.uri_scheme + "://" + domain["domain-name"]
                                   + self.uri_path + self.uri_query, ...)
                ssdeep_fuzz = ssdeep.hash(req.text)
            except Exception:
                pass
            else:
                if req.status_code // 100 == 2:
                    domain["ssdeep-score"] = ssdeep.compare(self.ssdeep_orig, ssdeep_fuzz)
  \<close>
\<close>

definition ssdeep_probe :: "network \<Rightarrow> domain_thread \<Rightarrow> wstate \<Rightarrow> wstate" where
  "ssdeep_probe net w s =
     (let url = uri_scheme w @ u ''://'' @ domain_name (cand s) @ uri_path w @ uri_query w;
          s' = emit_event (HttpGet url) s
      in case requests_get net url of
           None \<Rightarrow> s'
         | Some req \<Rightarrow>
             if fst req div 100 = 2
             then s'\<lparr>cand := (cand s')\<lparr>ssdeep_score :=
                        Some (ssdeep_compare net (ssdeep_orig w) (snd req))\<rparr>\<rparr>
             else s')"

definition ssdeep_step :: "network \<Rightarrow> domain_thread \<Rightarrow> wstate \<Rightarrow> wstate" where
  "ssdeep_step net w =
     (if option_ssdeep w
      then py_if (\<lambda>s. py_or (is_True ''dns_a'' (l_dns_a (vars s)))
                             (is_True ''dns_aaaa'' (l_dns_aaaa (vars s))))
             (ssdeep_probe net w)
      else (\<lambda>s. s))"

text \<open>
  \<^verbatim>\<open>
    domain["domain-name"] = domain["domain-name"].encode().decode("idna")
    self.jobs.task_done()
  \<close>
\<close>

definition unicode_step :: "stdlib \<Rightarrow> wstate \<Rightarrow> wstate" where
  "unicode_step lib s =
     (case idna_to_unicode lib (domain_name (cand s)) of
        None \<Rightarrow> raise UnicodeError s
      | Some n \<Rightarrow> s\<lparr>cand := (cand s)\<lparr>domain_name := n\<rparr>, name_id := next_id s,
                     next_id := next_id s + 1\<rparr>)"

definition run_round :: "stdlib \<Rightarrow> network \<Rightarrow> domain_thread \<Rightarrow> wstate \<Rightarrow> wstate" where
  "run_round lib net w =
     steps [idna_step lib, dns_step net w, mxcheck_step net w, whois_step net w,
            geoip_step net w, banners_step net w, ssdeep_step net w, unicode_step lib,
            emit_event TaskDone]"

subsection \<open>\<open>run\<close>\<close>

text \<open>
  \<^verbatim>\<open>
    while not self.kill_received:
        try:
            domain = self.jobs.get(block=False)
        except queue.Empty:
            self.kill_received = True
            return
        (the round)
  \<close>
  \<open>run\<close> of one worker on the jobs it dequeues, in order. The result is the candidates it
  has finished, the state after the last round, and the worker; an exception of a round
  ends \<open>run\<close> with \<open>raised\<close> set, the candidate of that round in \<open>cand\<close>.
\<close>

fun run_loop ::
  "stdlib \<Rightarrow> network \<Rightarrow> domain_thread \<Rightarrow> wstate \<Rightarrow> candidate list \<Rightarrow> candidate list
     \<Rightarrow> candidate list \<times> wstate \<times> domain_thread" where
  "run_loop lib net w s [] done = (done, s, if kill_received w then w else w\<lparr>kill_received := True\<rparr>)"
| "run_loop lib net w s (domain # jobs) done =
     (if kill_received w then (done, s, w)
      else let s' = run_round lib net w (s\<lparr>cand := domain\<rparr>)
           in if raised s' = None then run_loop lib net w s' jobs (done @ [cand s'])
              else (done, s', w))"

text \<open>
  A worker starts with no local assigned and nothing logged; \<open>first_id\<close> is above the
  identity of every string object made before, that of \<open>self.domain_orig\<close> among them.
\<close>

definition start :: "candidate \<Rightarrow> nat \<Rightarrow> wstate" where
  "start c first_id =
     \<lparr>cand = c, name_id = first_id, vars = unbound, log = [], next_id = first_id + 1,
      raised = None\<rparr>"

definition run :: "stdlib \<Rightarrow> network \<Rightarrow> domain_thread \<Rightarrow> nat \<Rightarrow> candidate list
     \<Rightarrow> candidate list \<times> wstate \<times> domain_thread" where
  "run lib net w first_id jobs =
     run_loop lib net w (start (entry [] []) first_id) jobs []"

section \<open>UrlParser\<close>

text \<open>
  The fields of a \<open>UrlParser\<close>.
\<close>

record url_parser =
  up_url :: ustr
  up_scheme :: ustr
  up_authority :: ustr
  up_domain :: ustr
  up_path :: ustr
  up_query :: ustr

text \<open>
  \<open>__validate_domain\<close>:
  \<^verbatim>\<open>
    if len(domain) > 255:
        return False
    if domain[-1] == ".":
        domain = domain[:-1]
    allowed = re.compile("\A([a-z0-9]+(-[a-z0-9]+)*\.)+[a-z]{2,}\Z", re.IGNORECASE)
    return allowed.match(domain)
  \<close>
  \<open>domain[-1]\<close> of the empty string raises \<open>IndexError\<close>. The two groups of the pattern
  are not read, so they are written as plain sequences.
\<close>

definition alnum_i :: cls where
  "alnum_i = letter_i @ digit"

definition url_allowed :: rexp where
  "url_allowed =
     seqs BeginS
       [Plus (seqs (Plus (Cls alnum_i))
                [Star (seqs (Chr CHR ''-'') [Plus (Cls alnum_i)]),
                 Chr CHR ''.'']),
        Rep (Cls letter_i) 2 None,
        EndS]"

definition url_validate_domain :: "ustr \<Rightarrow> py_error + bool" where
  "url_validate_domain d =
     (if length d > 255 then Inr False
      else if d = [] then Inl IndexError
      else let d' = (if last d = dot then butlast d else d)
           in Inr (re_match url_allowed d' \<noteq> None))"

text \<open>
  The pattern of \<open>__parse\<close>, compiled with \<open>re.MULTILINE | re.VERBOSE\<close>:
  \<^verbatim>\<open>
    ^
    (?:(?P<scheme>[^:/?#\s]+):)?
    (?://(?P<authority>[^/?#\s]*))?
    (?P<path>[^?#\s]*)
    (?:\?(?P<query>[^#\s]*))?
    (?:\#(?P<fragment>[^\s]*))?
    $
  \<close>
\<close>

definition chars :: "string \<Rightarrow> cls" where
  "chars cs = map (\<lambda>c. (ord c, ord c)) cs"

definition re_rfc3986_enhanced :: rexp where
  "re_rfc3986_enhanced =
     seqs CaretM
       [Opt (seqs (Group ''scheme'' (Plus (NCls (chars '':/?#'' @ space)))) [Chr CHR '':'']),
        Opt (seqs (Chr CHR ''/'')
               [Chr CHR ''/'', Group ''authority'' (Star (NCls (chars ''/?#'' @ space)))]),
        Group ''path'' (Star (NCls (chars ''?#'' @ space))),
        Opt (seqs (Chr CHR ''?'') [Group ''query'' (Star (NCls (chars ''#'' @ space)))]),
        Opt (seqs (Chr CHR ''#'') [Group ''fragment'' (Star (NCls space))]),
        DollarM]"

text \<open>
  \<open>__parse\<close>: a group that took no part in the match and a group that matched the empty
  string are both false in an \<open>if\<close>.
  \<^verbatim>\<open>
    m_uri = re_rfc3986_enhanced.match(self.url)
    if m_uri:
        if m_uri.group("scheme"):
            if m_uri.group("scheme").startswith("http"):
                self.scheme = m_uri.group("scheme")
            else:
                self.scheme = "http"
        if m_uri.group("authority"):
            self.authority = m_uri.group("authority")
            self.domain = self.authority.split(":")[0].lower()
            if not self.__validate_domain(self.domain):
                raise ValueError("Invalid domain name")
        if m_uri.group("path"):
            self.path = m_uri.group("path")
        if m_uri.group("query"):
            if len(m_uri.group("query")):
                self.query = "?" + m_uri.group("query")
  \<close>
\<close>

definition parse_scheme :: "mstate \<Rightarrow> url_parser \<Rightarrow> url_parser" where
  "parse_scheme m p =
     (case group m ''scheme'' of
        None \<Rightarrow> p
      | Some g \<Rightarrow>
          if g = [] then p
          else if startswith (u ''http'') g then p\<lparr>up_scheme := g\<rparr>
          else p\<lparr>up_scheme := u ''http''\<rparr>)"

definition parse_authority :: "stdlib \<Rightarrow> mstate \<Rightarrow> url_parser \<Rightarrow> py_error + url_parser" where
  "parse_authority lib m p =
     (case group m ''authority'' of
        None \<Rightarrow> Inr p
      | Some g \<Rightarrow>
          if g = [] then Inr p
          else let p' = p\<lparr>up_authority := g,
                          up_domain := lower lib (hd (py_split (ord CHR '':'') g))\<rparr>
               in (case url_validate_domain (up_domain p') of
                     Inl e \<Rightarrow> Inl e
                   | Inr ok \<Rightarrow>
                       if ok then Inr p' else Inl (ValueError ''Invalid domain name'')))"

definition parse_path :: "mstate \<Rightarrow> url_parser \<Rightarrow> url_parser" where
  "parse_path m p =
     (case group m ''path'' of
        None \<Rightarrow> p
      | Some g \<Rightarrow> if g = [] then p else p\<lparr>up_path := g\<rparr>)"

definition parse_query :: "mstate \<Rightarrow> url_parser \<Rightarrow> url_parser" where
  "parse_query m p =
     (case group m ''query'' of
        None \<Rightarrow> p
      | Some g \<Rightarrow> if g = [] then p else p\<lparr>up_query := u ''?'' @ g\<rparr>)"

definition parse :: "stdlib \<Rightarrow> url_parser \<Rightarrow> py_error + url_parser" where
  "parse lib p =
     (case re_match re_rfc3986_enhanced (up_url p) of
        None \<Rightarrow> Inr p
      | Some m_uri \<Rightarrow>
          (case parse_authority lib m_uri (parse_scheme m_uri p) of
             Inl e \<Rightarrow> Inl e
           | Inr p' \<Rightarrow> Inr (parse_query m_uri (parse_path m_uri p'))))"

text \<open>
  \<open>__init__\<close>:
  \<^verbatim>\<open>
    if "://" not in url:
        self.url = "http://" + url
    else:
        self.url = url
    (the five other fields are set to "")
    self.__parse()
  \<close>
\<close>

definition init_url :: "ustr \<Rightarrow> ustr" where
  "init_url url = (if contains (u ''://'') url then url else u ''http://'' @ url)"

definition UrlParser :: "stdlib \<Rightarrow> ustr \<Rightarrow> py_error + url_parser" where
  "UrlParser lib url =
     parse lib \<lparr>up_url = init_url url, up_scheme = [], up_authority = [], up_domain = [],
                up_path = [], up_query = []\<rparr>"

definition get_full_uri :: "url_parser \<Rightarrow> ustr" where
  "get_full_uri p = up_scheme p @ u ''://'' @ up_domain p @ up_path p @ up_query p"

section \<open>The specification's words\<close>

text \<open>
  The Subdomain strategy in the specification's words: a dot inserted at each interior
  position \<open>i\<close>, \<open>1 \<le> i \<le> len(s) - 1\<close>, where neither neighbour is a hyphen or a dot.
\<close>

definition subdomain_spec :: "ustr \<Rightarrow> ustr set" where
  "subdomain_spec s =
     {take i s @ [dot] @ drop i s | i.
        1 \<le> i \<and> i + 1 \<le> length s \<and> s ! (i - 1) \<notin> {hyphen, dot} \<and> s ! i \<notin> {hyphen, dot}}"

text \<open>
  Swapping the adjacent pair at positions \<open>i\<close> and \<open>i + 1\<close>, as an update of the two
  positions of the string.
\<close>

definition swap_pair :: "nat \<Rightarrow> ustr \<Rightarrow> ustr" where
  "swap_pair i s = s[i := s ! (i + 1), i + 1 := s ! i]"

text \<open>
  The form of a domain in the specification's words: at most 253 characters, every
  label of 1 to 63 characters, letters, digits and hyphens only, no label starting or
  ending with a hyphen, and a last label of at least two letters.
\<close>

definition ascii_letter :: "nat \<Rightarrow> bool" where
  "ascii_letter c = ((97 \<le> c \<and> c \<le> 122) \<or> (65 \<le> c \<and> c \<le> 90))"

definition ldh :: "nat \<Rightarrow> bool" where
  "ldh c = (ascii_letter c \<or> (48 \<le> c \<and> c \<le> 57) \<or> c = hyphen)"

definition spec_label :: "ustr \<Rightarrow> bool" where
  "spec_label l =
     (1 \<le> length l \<and> length l \<le> 63 \<and> list_all ldh l \<and> hd l \<noteq> hyphen \<and> last l \<noteq> hyphen)"

definition spec_domain_form :: "ustr \<Rightarrow> bool" where
  "spec_domain_form d =
     (length d \<le> 253 \<and> list_all spec_label (py_split dot d)
      \<and> 2 \<le> length (last (py_split dot d)) \<and> list_all ascii_letter (last (py_split dot d)))"

text \<open>
  The inputs of \<open>DomainFuzz\<close> in the specification's words: a registrable string of
  length 2 or more over \<open>[a-z0-9-]\<close>, in a syntactically valid context. The context is
  a subdomain that is empty or made of labels joined by dots, and a TLD made of labels
  joined by dots whose last label is 2 to 63 letters; a label is as above, 1 to 63
  letters, digits and hyphens with no hyphen at either end.
\<close>

definition lower_ldh :: "nat \<Rightarrow> bool" where
  "lower_ldh c = ((97 \<le> c \<and> c \<le> 122) \<or> (48 \<le> c \<and> c \<le> 57) \<or> c = hyphen)"

definition registrable :: "ustr \<Rightarrow> bool" where
  "registrable d = (2 \<le> length d \<and> list_all lower_ldh d)"

definition tld_label :: "ustr \<Rightarrow> bool" where
  "tld_label t = (2 \<le> length t \<and> length t \<le> 63 \<and> list_all ascii_letter t)"

definition valid_context :: "ustr \<Rightarrow> ustr \<Rightarrow> bool" where
  "valid_context sub t =
     ((sub = [] \<or> list_all spec_label (py_split dot sub))
      \<and> list_all spec_label (butlast (py_split dot t)) \<and> tld_label (last (py_split dot t)))"

section \<open>Notions for the statements and the proofs\<close>

text \<open>
  The form of a domain that \<open>UrlParser.__validate_domain\<close> accepts, read off the labels:
  the domain splits at its dots into two labels or more; every label but the last
  splits at its hyphens into non-empty runs of letters and digits (so it is not empty,
  neither starts nor ends with a hyphen and has no two hyphens in a row); the last
  label is two letters or more. Letters are those of \<open>[a-z]\<close> under \<open>IGNORECASE\<close>.
\<close>

definition alnum_run :: "ustr \<Rightarrow> bool" where
  "alnum_run p = (p \<noteq> [] \<and> list_all (in_cls alnum_i) p)"

definition url_label :: "ustr \<Rightarrow> bool" where
  "url_label l = list_all alnum_run (py_split hyphen l)"

definition url_tld :: "ustr \<Rightarrow> bool" where
  "url_tld t = (2 \<le> length t \<and> list_all (in_cls letter_i) t)"

definition url_domain_form :: "ustr \<Rightarrow> bool" where
  "url_domain_form d =
     (2 \<le> length (py_split dot d) \<and> list_all url_label (butlast (py_split dot d))
      \<and> url_tld (last (py_split dot d)))"

text \<open>
  The authority of a URL as \<open>__parse\<close> reads it: the \<open>authority\<close> group of the match of
  the pattern on \<open>self.url\<close>, \<open>None\<close> when the pattern does not match or the group took no
  part. The domain is its part before the first colon, in lower case.
\<close>

definition url_authority :: "ustr \<Rightarrow> ustr option" where
  "url_authority url =
     (case re_match re_rfc3986_enhanced (init_url url) of
        None \<Rightarrow> None
      | Some m \<Rightarrow> group m ''authority'')"

definition domain_of :: "stdlib \<Rightarrow> ustr \<Rightarrow> ustr" where
  "domain_of lib g = lower lib (hd (py_split (ord CHR '':'') g))"

text \<open>
  What \<open>UrlParser\<close> accepts as a non-empty domain: at most 255 characters and, one
  trailing dot removed, of the form above. A plain host is a non-empty string without
  \<open>:\<close>, \<open>/\<close>, \<open>?\<close>, \<open>#\<close> and white space: the characters that end the scheme or the
  authority in the pattern of \<open>__parse\<close>.
\<close>

definition url_accepted :: "ustr \<Rightarrow> bool" where
  "url_accepted d =
     (length d \<le> 255 \<and> url_domain_form (if last d = dot then butlast d else d))"

definition plain_host :: "ustr \<Rightarrow> bool" where
  "plain_host h = (h \<noteq> [] \<and> list_all (\<lambda>c. \<not> in_cls (chars '':/?#'' @ space) c) h)"

text \<open>
  The filter as a recursion over the list, for the proofs: an entry is kept when its name
  is valid and has not been seen.
\<close>

fun keep :: "stdlib \<Rightarrow> ustr set \<Rightarrow> candidate list \<Rightarrow> candidate list" where
  "keep lib seen [] = []"
| "keep lib seen (d # ds) =
     (if validate_domain lib (domain_name d) \<and> domain_name d \<notin> seen
      then d # keep lib (insert (domain_name d) seen) ds
      else keep lib seen ds)"

text \<open>The DNS queries of a log.\<close>

definition is_query :: "event \<Rightarrow> bool" where
  "is_query e = (case e of Query t \<Rightarrow> True | _ \<Rightarrow> False)"

definition queries :: "event list \<Rightarrow> event list" where
  "queries evs = filter is_query evs"

text \<open>A step that issues no DNS query.\<close>

definition quiet :: "(wstate \<Rightarrow> wstate) \<Rightarrow> bool" where
  "quiet f = (\<forall>s. queries (log (f s)) = queries (log s))"

text \<open>
  The words a pattern without anchors and look-arounds matches, for the proofs about
  the matcher: \<open>lang\<close> of the other patterns is not used. \<open>plain\<close> patterns are the ones
  built from classes, sequences, groups and repetitions of an expression that does not
  match the empty string. \<open>slice s i j\<close> is \<open>s[i:j]\<close>.
\<close>

definition bounded :: "nat option \<Rightarrow> nat \<Rightarrow> bool" where
  "bounded m x = (case m of None \<Rightarrow> True | Some k \<Rightarrow> x \<le> k)"

fun lang :: "rexp \<Rightarrow> ustr set" where
  "lang (Cls k) = {[c] | c. in_cls k c}"
| "lang (NCls k) = {[c] | c. \<not> in_cls k c}"
| "lang (Rep r n m) =
     {concat ws | ws. set ws \<subseteq> lang r \<and> n \<le> length ws \<and> bounded m (length ws)}"
| "lang (Seq a b) = {x @ y | x y. x \<in> lang a \<and> y \<in> lang b}"
| "lang (Group g r) = lang r"
| "lang r = {}"

fun plain :: "rexp \<Rightarrow> bool" where
  "plain (Cls k) = True"
| "plain (NCls k) = True"
| "plain (Rep r n m) = (plain r \<and> [] \<notin> lang r)"
| "plain (Seq a b) = (plain a \<and> plain b)"
| "plain (Group g r) = plain r"
| "plain r = False"

definition slice :: "ustr \<Rightarrow> nat \<Rightarrow> nat \<Rightarrow> ustr" where
  "slice s i j = take (j - i) (drop i s)"

text \<open>
  The part of the pattern of \<open>UrlParser.__validate_domain\<close> that is repeated: a label and
  its dot, \<open>[a-z0-9]+(-[a-z0-9]+)*\.\<close>.
\<close>

definition label_dot :: rexp where
  "label_dot = Seq (Plus (Cls alnum_i))
                 (Seq (Star (Seq (Chr CHR ''-'') (Plus (Cls alnum_i)))) (Chr CHR ''.''))"

text \<open>
  The form of a name that the pattern of \<open>DomainFuzz.__validate_domain\<close> matches, read
  off the labels: one or more labels of 1 to 63 letters, digits and hyphens, none
  starting or ending with a hyphen, each followed by a dot; a last label of 2 to 63
  letters; and, optionally, a dot at the end. \<open>fuzz_unit\<close> is the repeated part of the
  pattern, \<open>(?!-)[a-zA-Z0-9-]{1,63}(?<!-)\.\<close>, and \<open>fuzz_tail\<close> is \<open>[a-zA-Z]{2,63}\.?\<close>.
\<close>

definition ldh_i :: cls where
  "ldh_i = letter_i @ digit @ [(hyphen, hyphen)]"

definition fuzz_unit :: rexp where
  "fuzz_unit = Seq (NotAhead (Chr CHR ''-''))
                 (Seq (Rep (Cls ldh_i) 1 (Some 63))
                    (Seq (NotBehind [(hyphen, hyphen)]) (Chr CHR ''.'')))"

definition fuzz_label :: "ustr \<Rightarrow> bool" where
  "fuzz_label l =
     (1 \<le> length l \<and> length l \<le> 63 \<and> list_all (in_cls ldh_i) l \<and> hd l \<noteq> hyphen \<and> last l \<noteq> hyphen)"

definition fuzz_tld :: "ustr \<Rightarrow> bool" where
  "fuzz_tld t = (2 \<le> length t \<and> length t \<le> 63 \<and> list_all (in_cls letter_i) t)"

definition fuzz_form :: "ustr \<Rightarrow> bool" where
  "fuzz_form s =
     (\<exists>ls t e. ls \<noteq> [] \<and> list_all fuzz_label ls \<and> fuzz_tld t \<and> (e = [] \<or> e = [dot])
              \<and> s = concat (map (\<lambda>l. l @ [dot]) ls) @ t @ e)"

definition fuzz_tail :: rexp where
  "fuzz_tail = Seq (Rep (Cls letter_i) 2 (Some 63)) (Opt (Chr CHR ''.''))"

section \<open>Values for the closed examples\<close>

text \<open>
  A value of \<open>stdlib\<close> for the closed examples, which are about ASCII names: the codec
  refuses a name beyond ASCII and the other three operations leave it alone.
\<close>

definition ascii_lib :: stdlib where
  "ascii_lib =
     \<lparr>idna_nonascii = (\<lambda>s. None), idna_to_unicode = (\<lambda>s. Some s),
      isalpha_nonascii = (\<lambda>c. False), lower_nonascii = (\<lambda>s. s)\<rparr>"

text \<open>
  Networks and a worker for the closed examples. In \<open>quiet_net\<close> nothing answers. In
  \<open>aaaa_net\<close> the name has NS and AAAA records and no A or MX record. In \<open>mail_net\<close> it
  has NS and MX records and the mail host takes every message. \<open>worker\<close> is a
  \<open>DomainThread\<close> after \<open>__init__\<close> with the resolver module present, for the original
  domain \<open>ab.com\<close>, the string object of identity 0.
\<close>

definition quiet_net :: network where
  "quiet_net =
     \<lparr>resolv_query = (\<lambda>name t. DNSException), getaddrinfo = (\<lambda>name. GaiException),
      smtp_session = (\<lambda>mx a b. False), randint_from = 1, randint_to = 1,
      whois_query = (\<lambda>name. None), country_name_by_addr = (\<lambda>ip. None),
      http_head = (\<lambda>ip vhost. None), smtp_greeting = (\<lambda>mx. None),
      requests_get = (\<lambda>url. None), ssdeep_compare = (\<lambda>a b. 0)\<rparr>"

definition aaaa_net :: network where
  "aaaa_net =
     quiet_net\<lparr>resolv_query :=
       (\<lambda>name t. case t of NS \<Rightarrow> Answer [u ''ns1.ab.com.'']
                          | AAAA \<Rightarrow> Answer [u ''2001:db8::1'']
                          | A \<Rightarrow> DNSException
                          | MX \<Rightarrow> DNSException)\<rparr>"

definition mail_net :: network where
  "mail_net =
     quiet_net\<lparr>resolv_query :=
       (\<lambda>name t. case t of NS \<Rightarrow> Answer [u ''ns1.ab.com.'']
                          | MX \<Rightarrow> Answer [u ''10 mail.ab.com.'']
                          | A \<Rightarrow> DNSException
                          | AAAA \<Rightarrow> DNSException),
       smtp_session := (\<lambda>mx a b. True)\<rparr>"

definition worker :: domain_thread where
  "worker =
     \<lparr>kill_received = False, ssdeep_orig = [], domain_orig = (0, u ''ab.com''),
      uri_scheme = u ''http'', uri_path = [], uri_query = [],
      option_extdns = True, option_geoip = False, option_whois = False,
      option_ssdeep = False, option_banners = False, option_mxcheck = False\<rparr>"

section \<open>Ranges and folds\<close>

lemma py_range_set: "0 \<le> a \<Longrightarrow> set (py_range a b) = {n. a \<le> int n \<and> int n < b}"
proof -
  assume a: "0 \<le> a"
  have "set (py_range a b) = nat ` {a..b - 1}"
    by (simp add: py_range_def)
  also have "\<dots> = {n. a \<le> int n \<and> int n < b}"
  proof (rule set_eqI)
    fix n
    show "n \<in> nat ` {a..b - 1} \<longleftrightarrow> n \<in> {n. a \<le> int n \<and> int n < b}"
    proof
      assume "n \<in> nat ` {a..b - 1}"
      then obtain k where "k \<in> {a..b - 1}" and "n = nat k" by blast
      with a show "n \<in> {n. a \<le> int n \<and> int n < b}" by simp
    next
      assume "n \<in> {n. a \<le> int n \<and> int n < b}"
      then have "int n \<in> {a..b - 1}" by simp
      then have "nat (int n) \<in> nat ` {a..b - 1}" by (rule imageI)
      then show "n \<in> nat ` {a..b - 1}" by simp
    qed
  qed
  finally show ?thesis .
qed

lemma fold_append_if:
  "fold (\<lambda>i result. if P i then result @ [f i] else result) is acc = acc @ map f (filter P is)"
  by (induction "is" arbitrary: acc) simp_all

lemma subdomain_map_filter:
  "subdomain d =
     map (\<lambda>i. take i d @ [dot] @ drop i d)
       (filter (\<lambda>i. d ! i \<notin> {hyphen, dot} \<and> d ! (i - 1) \<notin> {hyphen, dot})
         (py_range 1 (int (length d) - 3)))"
  unfolding subdomain_def by (simp only: fold_append_if append_Nil)

lemma transposition_map_filter:
  "transposition d =
     map (\<lambda>i. take i d @ [d ! (i + 1)] @ [d ! i] @ drop (i + 2) d)
       (filter (\<lambda>i. d ! (i + 1) \<noteq> d ! i) (py_range 0 (int (length d) - 1)))"
  unfolding transposition_def by (simp only: fold_append_if append_Nil)

lemma slices_are_swap_pair:
  assumes "i + 1 < length s"
  shows "take i s @ [s ! (i + 1)] @ [s ! i] @ drop (i + 2) s = swap_pair i s"
proof -
  from assms have s: "s = take i s @ [s ! i] @ [s ! (i + 1)] @ drop (i + 2) s"
    by (metis Cons_nth_drop_Suc Suc_eq_plus1 Suc_lessD add_2_eq_Suc' append_Cons append_Nil
        append_take_drop_id)
  have len: "length (take i s) = i" using assms by simp
  have "swap_pair i s = (take i s @ [s ! i] @ [s ! (i + 1)] @ drop (i + 2) s)
                          [i := s ! (i + 1), i + 1 := s ! i]"
    unfolding swap_pair_def using s by simp
  also have "\<dots> = take i s @ [s ! (i + 1)] @ [s ! i] @ drop (i + 2) s"
    using len by (simp add: list_update_append)
  finally show ?thesis by simp
qed

lemma swap_pair_involution:
  assumes "i + 1 < length s"
  shows "swap_pair i (swap_pair i s) = s"
  using assms unfolding swap_pair_def
  by (intro nth_equalityI) (auto simp: nth_list_update)


lemma py_range_upt: "0 \<le> a \<Longrightarrow> py_range a b = [nat a ..< nat b]"
proof (induction "nat (b - a)" arbitrary: a)
  case 0
  then show ?case by (simp add: py_range_def)
next
  case (Suc n)
  then have lt: "a < b" and n: "n = nat (b - (a + 1))" by linarith+
  have "[a..b - 1] = a # [a + 1..b - 1]"
    using lt by (simp add: upto_rec1)
  moreover have "[nat a ..< nat b] = nat a # [nat (a + 1) ..< nat b]"
    using lt Suc.prems by (simp add: upt_conv_Cons nat_add_distrib)
  moreover have "py_range (a + 1) b = [nat (a + 1) ..< nat b]"
    using Suc.hyps(1)[OF n] Suc.prems by simp
  ultimately show ?case by (simp add: py_range_def)
qed

section \<open>The filter keeps the first valid occurrence of each name\<close>

lemma fold_filter_step:
  "fold (filter_step lib) ds (seen, acc)
     = (seen \<union> {n \<in> domain_name ` set ds. validate_domain lib n}, acc @ keep lib seen ds)"
proof (induction ds arbitrary: seen acc)
  case Nil
  then show ?case by simp
next
  case (Cons d ds)
  show ?case
  proof (cases "validate_domain lib (domain_name d) \<and> domain_name d \<notin> seen")
    case True
    then have "fold (filter_step lib) (d # ds) (seen, acc)
                 = fold (filter_step lib) ds (insert (domain_name d) seen, acc @ [d])"
      by (simp add: filter_step_def)
    also have "\<dots> = (insert (domain_name d) seen \<union> {n \<in> domain_name ` set ds. validate_domain lib n},
                      (acc @ [d]) @ keep lib (insert (domain_name d) seen) ds)"
      by (rule Cons.IH)
    finally show ?thesis using True by auto
  next
    case False
    then have "fold (filter_step lib) (d # ds) (seen, acc) = fold (filter_step lib) ds (seen, acc)"
      by (auto simp add: filter_step_def)
    also have "\<dots> = (seen \<union> {n \<in> domain_name ` set ds. validate_domain lib n}, acc @ keep lib seen ds)"
      by (rule Cons.IH)
    finally show ?thesis using False by auto
  qed
qed

lemma filter_domains_keep: "filter_domains lib ds = keep lib {} ds"
  by (simp add: filter_domains_def fold_filter_step)

lemma keep_subset: "set (keep lib seen ds) \<subseteq> set ds"
  by (induction ds arbitrary: seen) auto

lemma keep_valid: "e \<in> set (keep lib seen ds) \<Longrightarrow> validate_domain lib (domain_name e)"
  by (induction ds arbitrary: seen) (auto split: if_splits)

lemma keep_unseen: "e \<in> set (keep lib seen ds) \<Longrightarrow> domain_name e \<notin> seen"
  by (induction ds arbitrary: seen) (auto split: if_splits)

lemma keep_distinct: "distinct (map domain_name (keep lib seen ds))"
proof (induction ds arbitrary: seen)
  case Nil
  then show ?case by simp
next
  case (Cons d ds)
  have "domain_name d \<notin> domain_name ` set (keep lib (insert (domain_name d) seen) ds)"
    using keep_unseen by fastforce
  with Cons.IH show ?case by simp
qed

lemma keep_names:
  "domain_name ` set (keep lib seen ds)
     = {n \<in> domain_name ` set ds. validate_domain lib n \<and> n \<notin> seen}"
proof (induction ds arbitrary: seen)
  case Nil
  then show ?case by simp
next
  case (Cons d ds)
  show ?case
  proof (cases "validate_domain lib (domain_name d) \<and> domain_name d \<notin> seen")
    case True
    then show ?thesis using Cons.IH[of "insert (domain_name d) seen"] by auto
  next
    case False
    then show ?thesis using Cons.IH[of seen] by auto
  qed
qed


lemma fuzzer_entry: "fuzzer (entry tag n) = tag"
  by (simp add: entry_def)

lemma domain_name_entry: "domain_name (entry tag n) = n"
  by (simp add: entry_def)

lemma fuzzer_emit: "e \<in> set (emit f tag ds) \<Longrightarrow> fuzzer e = tag"
  by (auto simp: emit_def fuzzer_entry)

lemma fuzzer_various: "e \<in> set (various f) \<Longrightarrow> fuzzer e = ''Various''"
  by (auto simp: various_def fuzzer_entry split: if_splits)

lemma emitted_DomainFuzz:
  "\<exists>rest. emitted lib (DomainFuzz sub d t) = entry ''Original*'' (reassemble sub d t) # rest
          \<and> (\<forall>e \<in> set rest. fuzzer e \<noteq> ''Original*'')"
proof -
  let ?f = "DomainFuzz sub d t"
  let ?rest = "emit ?f ''Addition'' (addition d)
     @ emit ?f ''Bitsquatting'' (bitsquatting d)
     @ emit ?f ''Homoglyph'' (homoglyph d)
     @ emit ?f ''Hyphenation'' (hyphenation d)
     @ emit ?f ''Insertion'' (insertion d)
     @ emit ?f ''Omission'' (omission d)
     @ emit ?f ''Repetition'' (repetition lib d)
     @ emit ?f ''Replacement'' (replacement d)
     @ emit ?f ''Subdomain'' (subdomain d)
     @ emit ?f ''Transposition'' (transposition d)
     @ emit ?f ''Vowel-swap'' (vowel_swap d)
     @ various ?f"
  have "emitted lib ?f = entry ''Original*'' (reassemble sub d t) # ?rest"
    by (simp add: emitted_def DomainFuzz_def)
  moreover have "\<forall>e \<in> set ?rest. fuzzer e \<noteq> ''Original*''"
    by (auto dest!: fuzzer_emit fuzzer_various)
  ultimately show ?thesis by blast
qed

lemma generate_domains:
  "fz_domains (generate lib f) = keep lib {} (emitted lib f)"
  by (simp add: generate_def filter_domains_keep)

lemma generate_valid_original:
  assumes "validate_domain lib (reassemble sub d t)"
  shows "\<exists>rest. fz_domains (generate lib (DomainFuzz sub d t))
                  = entry ''Original*'' (reassemble sub d t) # rest
               \<and> (\<forall>e \<in> set rest. fuzzer e \<noteq> ''Original*'')"
proof -
  let ?o = "entry ''Original*'' (reassemble sub d t)"
  obtain rest where em: "emitted lib (DomainFuzz sub d t) = ?o # rest"
    and tags: "\<forall>e \<in> set rest. fuzzer e \<noteq> ''Original*''"
    using emitted_DomainFuzz by blast
  have ds: "fz_domains (generate lib (DomainFuzz sub d t))
              = ?o # keep lib {reassemble sub d t} rest"
    using assms by (simp add: generate_domains em domain_name_entry)
  have "\<forall>e \<in> set (keep lib {reassemble sub d t} rest). fuzzer e \<noteq> ''Original*''"
    using tags keep_subset by blast
  with ds show ?thesis by blast
qed

lemma generate_invalid_original:
  assumes "\<not> validate_domain lib (reassemble sub d t)"
  shows "filter (\<lambda>e. fuzzer e = ''Original*'') (fz_domains (generate lib (DomainFuzz sub d t))) = []"
proof -
  let ?o = "entry ''Original*'' (reassemble sub d t)"
  obtain rest where em: "emitted lib (DomainFuzz sub d t) = ?o # rest"
    and tags: "\<forall>e \<in> set rest. fuzzer e \<noteq> ''Original*''"
    using emitted_DomainFuzz by blast
  have ds: "fz_domains (generate lib (DomainFuzz sub d t)) = keep lib {} rest"
    using assms by (simp add: generate_domains em domain_name_entry)
  have "\<forall>e \<in> set (keep lib {} rest). fuzzer e \<noteq> ''Original*''"
    using tags keep_subset by blast
  then show ?thesis
    unfolding ds by (simp add: filter_empty_conv)
qed

lemmas validate_eval =
  validate_domain_def ascii_lib_def idna_encode_def u_def ord_def is_ascii_def dot_def
  reassemble_def filter_None_def re_match_def fuzz_allowed_def Plus_def Opt_def Chr_def
  any_char_def letter_i_def digit_def hyphen_def newline_def in_cls_def

lemma fold_append_all: "fold (\<lambda>i result. result @ [f i]) is acc = acc @ map f is"
  by (induction "is" arbitrary: acc) simp_all

lemma addition_set: "set (addition d) = {d @ [i] | i. 97 \<le> i \<and> i < 123}"
  by (auto simp: addition_def fold_append_all py_range_set)

lemma generate_names:
  "domain_name ` set (fz_domains (generate lib f))
     = {n \<in> domain_name ` set (emitted lib f). validate_domain lib n}"
  by (simp add: generate_domains keep_names)

lemma emitted_addition:
  "x \<in> set (addition (fz_domain f)) \<Longrightarrow>
   entry ''Addition'' (reassemble (fz_subdomain f) x (fz_tld f)) \<in> set (emitted lib f)"
  by (simp add: emitted_def emit_def)

lemma valid_ab_com: "validate_domain ascii_lib (reassemble [] (u ''ab'') (u ''com''))"
  by (simp add: validate_eval)

lemma py_split_not_Nil: "py_split c s \<noteq> []"
  by (induction s) (auto split: list.splits)

lemma py_split_no_sep: "c \<notin> set xs \<Longrightarrow> py_split c xs = [xs]"
  by (induction xs) auto

lemma py_split_append: "c \<notin> set xs \<Longrightarrow> py_split c (xs @ c # ys) = xs # py_split c ys"
  by (induction xs) auto

lemma long_label_invalid:
  "\<not> validate_domain ascii_lib (reassemble [] (replicate 64 (ord CHR ''a'')) (u ''com''))"
proof -
  have name: "reassemble [] (replicate 64 (ord CHR ''a'')) (u ''com'')
                = replicate 64 97 @ dot # u ''com''"
    by (simp add: reassemble_def filter_None_def ord_def u_def)
  have "py_split dot (replicate 64 97 @ dot # u ''com'') = [replicate 64 97, u ''com'']"
    by (simp add: py_split_append py_split_no_sep dot_def u_def ord_def)
  then have "idna_encode ascii_lib (replicate 64 97 @ dot # u ''com'') = None"
    by (simp add: idna_encode_def is_ascii_def dot_def u_def ord_def ascii_lib_def)
  then show ?thesis
    unfolding name by (simp add: validate_domain_def)
qed

section \<open>The rounds of a worker\<close>

lemmas round_eval =
  run_def start_def run_round_def steps_def idna_step_def dns_step_def resolver_branch_def
  getaddrinfo_branch_def resolve_ns_def resolve_a_def resolve_aaaa_def resolve_mx_def
  mxcheck_step_def mxcheck_probe_def whois_step_def whois_probe_def geoip_step_def
  geoip_probe_def banners_step_def banner_http_probe_def banner_smtp_probe_def
  ssdeep_step_def ssdeep_probe_def unicode_step_def py_if_def py_and_def py_or_def
  is_True_def is_False_def raise_def emit_event_def first_of_def all_False_def unbound_def
  entry_def

lemmas net_eval =
  worker_def quiet_net_def aaaa_net_def mail_net_def ascii_lib_def idna_encode_def
  is_ascii_def u_def ord_def dot_def

lemma steps_Nil: "steps [] s = s"
  by (simp add: steps_def)

lemma steps_Cons: "steps (f # fs) s = steps fs (if raised s = None then f s else s)"
  by (simp add: steps_def)

lemma quiet_id: "quiet (\<lambda>s. s)"
  by (simp add: quiet_def)

lemma quiet_emit: "\<not> is_query e \<Longrightarrow> quiet (emit_event e)"
  by (simp add: quiet_def emit_event_def queries_def)

lemma quiet_py_if: "quiet body \<Longrightarrow> quiet (py_if c body)"
  by (auto simp: quiet_def py_if_def raise_def split: sum.splits)

lemma quiet_steps: "list_all quiet fs \<Longrightarrow> quiet (steps fs)"
proof (induction fs)
  case Nil
  then show ?case by (simp add: quiet_def steps_Nil)
next
  case (Cons f fs)
  then have f: "quiet f" and fs: "quiet (steps fs)" by simp_all
  show ?case
    unfolding quiet_def
  proof
    fix s
    have "queries (log (steps fs (if raised s = None then f s else s)))
            = queries (log (if raised s = None then f s else s))"
      using fs by (simp add: quiet_def)
    also have "\<dots> = queries (log s)"
      using f by (simp add: quiet_def)
    finally show "queries (log (steps (f # fs) s)) = queries (log s)"
      by (simp add: steps_Cons)
  qed
qed

lemma quiet_mxcheck: "quiet (mxcheck_step net w)"
proof -
  have "quiet (mxcheck_probe net w)"
    by (auto simp: quiet_def mxcheck_probe_def raise_def emit_event_def queries_def is_query_def
        Let_def split: sum.splits)
  then show ?thesis
    by (simp add: mxcheck_step_def quiet_py_if quiet_id)
qed

lemma quiet_whois: "quiet (whois_step net w)"
proof -
  have "quiet (whois_probe net)"
    by (auto simp: quiet_def whois_probe_def emit_event_def queries_def is_query_def Let_def
        split: option.splits)
  then show ?thesis
    by (simp add: whois_step_def quiet_py_if quiet_id)
qed

lemma quiet_geoip: "quiet (geoip_step net w)"
proof -
  have "quiet (geoip_probe net)"
    by (auto simp: quiet_def geoip_probe_def emit_event_def queries_def is_query_def Let_def
        split: option.splits sum.splits)
  then show ?thesis
    by (simp add: geoip_step_def quiet_py_if quiet_id)
qed

lemma quiet_banners: "quiet (banners_step net w)"
proof -
  have "quiet (banner_http_probe net)"
    by (auto simp: quiet_def banner_http_probe_def raise_def emit_event_def queries_def
        is_query_def Let_def split: sum.splits)
  moreover have "quiet (banner_smtp_probe net)"
    by (auto simp: quiet_def banner_smtp_probe_def raise_def emit_event_def queries_def
        is_query_def Let_def split: sum.splits)
  ultimately show ?thesis
    by (simp add: banners_step_def quiet_py_if quiet_id quiet_steps)
qed

lemma quiet_ssdeep: "quiet (ssdeep_step net w)"
proof -
  have "quiet (ssdeep_probe net w)"
    by (auto simp: quiet_def ssdeep_probe_def emit_event_def queries_def is_query_def Let_def
        split: option.splits)
  then show ?thesis
    by (simp add: ssdeep_step_def quiet_py_if quiet_id)
qed

lemma quiet_unicode: "quiet (unicode_step lib)"
  by (auto simp: quiet_def unicode_step_def raise_def split: option.splits)

lemma quiet_after_dns:
  "quiet (steps [mxcheck_step net w, whois_step net w, geoip_step net w, banners_step net w,
                 ssdeep_step net w, unicode_step lib, emit_event TaskDone])"
  by (rule quiet_steps)
     (simp add: quiet_mxcheck quiet_whois quiet_geoip quiet_banners quiet_ssdeep quiet_unicode
        quiet_emit is_query_def)

lemma resolve_a_facts:
  "log (resolve_a net s) = log s @ [Query A]"
  "raised (resolve_a net s) = raised s"
  "l_nxdomain (vars (resolve_a net s)) = l_nxdomain (vars s)"
  "l_dns_ns (vars (resolve_a net s)) = l_dns_ns (vars s)"
  "domain_name (cand (resolve_a net s)) = domain_name (cand s)"
  by (simp_all add: resolve_a_def emit_event_def Let_def split: dns_result.split)

lemma resolve_aaaa_facts:
  "log (resolve_aaaa net s) = log s @ [Query AAAA]"
  "raised (resolve_aaaa net s) = raised s"
  "l_nxdomain (vars (resolve_aaaa net s)) = l_nxdomain (vars s)"
  "l_dns_ns (vars (resolve_aaaa net s)) = l_dns_ns (vars s)"
  "domain_name (cand (resolve_aaaa net s)) = domain_name (cand s)"
  by (simp_all add: resolve_aaaa_def emit_event_def Let_def split: dns_result.split)

lemma resolve_mx_facts:
  "log (resolve_mx net s) = log s @ [Query MX]"
  "raised (resolve_mx net s) = raised s"
  by (simp_all add: resolve_mx_def emit_event_def Let_def split: dns_result.split)

lemma resolve_ns_facts:
  "log (resolve_ns net s) = log s @ [Query NS]"
  "raised (resolve_ns net s) = raised s"
  "domain_name (cand (resolve_ns net s)) = domain_name (cand s)"
  by (simp_all add: resolve_ns_def emit_event_def Let_def split: dns_result.split)

lemma resolve_ns_flags:
  "vars s = all_False \<Longrightarrow>
   l_nxdomain (vars (resolve_ns net s))
     = Some (resolv_query net (domain_name (cand s)) NS = NXDOMAIN)
   \<and> l_dns_ns (vars (resolve_ns net s))
     = Some (\<exists>xs. resolv_query net (domain_name (cand s)) NS = Answer xs)"
  by (simp add: resolve_ns_def emit_event_def all_False_def Let_def split: dns_result.split)

lemma resolver_branch_log:
  assumes "raised s = None"
  shows "log (resolver_branch net s)
           = log s @ Query NS #
               (case resolv_query net (domain_name (cand s)) NS of
                  NXDOMAIN \<Rightarrow> []
                | Answer xs \<Rightarrow> [Query A, Query AAAA, Query MX]
                | NoNameservers \<Rightarrow> [Query A, Query AAAA]
                | DNSException \<Rightarrow> [Query A, Query AAAA])
         \<and> raised (resolver_branch net s) = None"
proof -
  let ?s0 = "s\<lparr>vars := all_False\<rparr>"
  let ?s1 = "resolve_ns net ?s0"
  let ?r = "resolv_query net (domain_name (cand s)) NS"
  have r1: "raised ?s1 = None" "log ?s1 = log s @ [Query NS]"
    "domain_name (cand ?s1) = domain_name (cand s)"
    using assms by (simp_all add: resolve_ns_facts)
  have flags: "l_nxdomain (vars ?s1) = Some (?r = NXDOMAIN)"
    "l_dns_ns (vars ?s1) = Some (\<exists>xs. ?r = Answer xs)"
    using resolve_ns_flags[of ?s0 net] by simp_all
  show ?thesis
  proof (cases "?r = NXDOMAIN")
    case True
    then show ?thesis
      using assms r1 flags
      by (simp add: resolver_branch_def steps_Cons steps_Nil py_if_def py_and_def is_False_def
          is_True_def)
  next
    case False
    let ?s2 = "resolve_aaaa net (resolve_a net ?s1)"
    have r2: "raised ?s2 = None" "log ?s2 = log s @ [Query NS, Query A, Query AAAA]"
      "l_nxdomain (vars ?s2) = Some False" "l_dns_ns (vars ?s2) = Some (\<exists>xs. ?r = Answer xs)"
      using r1 flags False by (simp_all add: resolve_a_facts resolve_aaaa_facts)
    have mid: "steps [resolve_a net, resolve_aaaa net] ?s1 = ?s2"
      using r1 by (simp add: steps_Cons steps_Nil resolve_a_facts)
    show ?thesis
    proof (cases "\<exists>xs. ?r = Answer xs")
      case True
      then show ?thesis
        using assms r1 r2 flags False mid
        by (auto simp add: resolver_branch_def steps_Cons steps_Nil py_if_def py_and_def
            is_False_def is_True_def resolve_mx_facts)
    next
      case noans: False
      then have "(case ?r of NXDOMAIN \<Rightarrow> [] | Answer xs \<Rightarrow> [Query A, Query AAAA, Query MX]
                   | NoNameservers \<Rightarrow> [Query A, Query AAAA]
                   | DNSException \<Rightarrow> [Query A, Query AAAA]) = [Query A, Query AAAA]"
        using False by (cases ?r) simp_all
      then show ?thesis
        using assms r1 r2 flags False mid noans
        by (simp add: resolver_branch_def steps_Cons steps_Nil py_if_def py_and_def
            is_False_def is_True_def)
    qed
  qed
qed

section \<open>What the matcher computes\<close>

lemma slice_self: "slice s i i = []"
  by (simp add: slice_def)

lemma slice_length: "i \<le> k \<Longrightarrow> k \<le> length s \<Longrightarrow> length (slice s i k) = k - i"
  by (simp add: slice_def)

lemma slice_append:
  "i \<le> j \<Longrightarrow> j \<le> k \<Longrightarrow> k \<le> length s \<Longrightarrow> slice s i k = slice s i j @ slice s j k"
proof -
  assume a: "i \<le> j" "j \<le> k" "k \<le> length s"
  have "take (k - i) (drop i s) = take ((j - i) + (k - j)) (drop i s)"
    using a by simp
  also have "\<dots> = take (j - i) (drop i s) @ take (k - j) (drop (j - i) (drop i s))"
    by (rule take_add)
  also have "drop (j - i) (drop i s) = drop j s"
    using a by simp
  finally show ?thesis by (simp add: slice_def)
qed

lemma slice_split:
  assumes "i \<le> k" "k \<le> length s" "slice s i k = w @ r"
  shows "i + length w \<le> k \<and> slice s i (i + length w) = w \<and> slice s (i + length w) k = r"
proof -
  have len: "length w + length r = k - i"
    using assms slice_length[of i k s] by simp
  then have j: "i + length w \<le> k" using assms(1) by linarith
  have "slice s i k = slice s i (i + length w) @ slice s (i + length w) k"
    using assms j by (intro slice_append) simp_all
  moreover have "length (slice s i (i + length w)) = length w"
    using assms j by (simp add: slice_length)
  ultimately show ?thesis
    using assms(3) j by (metis append_eq_append_conv)
qed

lemma slice_empty: "i \<le> k \<Longrightarrow> k \<le> length s \<Longrightarrow> slice s i k = [] \<Longrightarrow> k = i"
  using slice_length[of i k s] by simp

lemma rep_run_ends:
  assumes f: "\<And>j c. j \<le> length s \<Longrightarrow>
                fst ` set (f (j, c)) = {k. j \<le> k \<and> k \<le> length s \<and> slice s j k \<in> L}"
    and nonnull: "[] \<notin> L"
  shows "i \<le> length s \<Longrightarrow> length s - i < fuel \<Longrightarrow>
         fst ` set (rep_run f n m fuel (i, c))
           = {k. i \<le> k \<and> k \<le> length s \<and>
                 (\<exists>ws. set ws \<subseteq> L \<and> concat ws = slice s i k \<and> n \<le> length ws
                       \<and> bounded m (length ws))}"
proof (induction fuel arbitrary: i n m c)
  case 0
  then show ?case by simp
next
  case (Suc fuel)
  define R where "R = (\<lambda>i n m. {k. i \<le> k \<and> k \<le> length s \<and>
                 (\<exists>ws. set ws \<subseteq> L \<and> concat ws = slice s i k \<and> n \<le> length ws
                       \<and> bounded m (length ws))})"
  define m' where "m' = map_option (\<lambda>k. k - 1) m"
  define nxt where "nxt = filter (\<lambda>st'. i < fst st') (f (i, c))"
  have R_I: "\<And>i k ws n m. i \<le> k \<Longrightarrow> k \<le> length s \<Longrightarrow> set ws \<subseteq> L \<Longrightarrow>
               concat ws = slice s i k \<Longrightarrow> n \<le> length ws \<Longrightarrow> bounded m (length ws) \<Longrightarrow>
               k \<in> R i n m"
    unfolding R_def by blast
  have R_E: "\<And>i n m k. k \<in> R i n m \<Longrightarrow> i \<le> k \<and> k \<le> length s \<and>
                 (\<exists>ws. set ws \<subseteq> L \<and> concat ws = slice s i k \<and> n \<le> length ws
                       \<and> bounded m (length ws))"
    unfolding R_def by blast
  have nxt_D: "\<And>st'. st' \<in> set nxt \<Longrightarrow>
                 i < fst st' \<and> fst st' \<le> length s \<and> slice s i (fst st') \<in> L"
  proof -
    fix st'
    assume "st' \<in> set nxt"
    then have "fst st' \<in> fst ` set (f (i, c))" and gt: "i < fst st'"
      by (auto simp: nxt_def)
    then show "i < fst st' \<and> fst st' \<le> length s \<and> slice s i (fst st') \<in> L"
      using f[OF Suc.prems(1), of c] by auto
  qed
  have IH: "\<And>st'. st' \<in> set nxt \<Longrightarrow>
              fst ` set (rep_run f (n - 1) m' fuel st') = R (fst st') (n - 1) m'"
  proof -
    fix st'
    assume st': "st' \<in> set nxt"
    from nxt_D[OF st'] have gt: "i < fst st'" and le: "fst st' \<le> length s" by simp_all
    have "length s - fst st' < fuel"
      using Suc.prems(2) gt le by linarith
    from Suc.IH[OF le this, of "n - 1" m' "snd st'"]
    show "fst ` set (rep_run f (n - 1) m' fuel st') = R (fst st') (n - 1) m'"
      by (simp add: R_def)
  qed
  have U: "(\<Union>st' \<in> set nxt. fst ` set (rep_run f (n - 1) m' fuel st'))
               = (\<Union>st' \<in> set nxt. R (fst st') (n - 1) m')"
    by (rule SUP_cong[OF refl]) (rule IH)
  have unfold: "fst ` set (rep_run f n m (Suc fuel) (i, c))
      = (if m = Some 0 then {} else (\<Union>st' \<in> set nxt. fst ` set (rep_run f (n - 1) m' fuel st')))
        \<union> (if n = 0 then {i} else {})"
    by (auto simp: image_Union nxt_def m'_def)
  also have "\<dots> = (if m = Some 0 then {} else (\<Union>st' \<in> set nxt. R (fst st') (n - 1) m'))
        \<union> (if n = 0 then {i} else {})"
    unfolding U ..
  also have "\<dots> = R i n m"
  proof (rule set_eqI, rule iffI)
    fix k
    assume "k \<in> (if m = Some 0 then {} else (\<Union>st' \<in> set nxt. R (fst st') (n - 1) m'))
        \<union> (if n = 0 then {i} else {})"
    then have "(m \<noteq> Some 0 \<and> (\<exists>st' \<in> set nxt. k \<in> R (fst st') (n - 1) m')) \<or> (n = 0 \<and> k = i)"
      by (auto split: if_splits)
    then consider (more) st' where "m \<noteq> Some 0" "st' \<in> set nxt" "k \<in> R (fst st') (n - 1) m'"
      | (stop) "n = 0" "k = i"
      by blast
    then show "k \<in> R i n m"
    proof cases
      case more
      note m0 = more(1) and st' = more(2) and kR = more(3)
      let ?j = "fst st'"
      from nxt_D[OF st'] have gt: "i < ?j" and j: "?j \<le> length s" "slice s i ?j \<in> L"
        by simp_all
      from R_E[OF kR] obtain ws where k: "?j \<le> k" "k \<le> length s"
        and ws: "set ws \<subseteq> L" "concat ws = slice s ?j k" "n - 1 \<le> length ws"
          "bounded m' (length ws)"
        by blast
      have c: "concat (slice s i ?j # ws) = slice s i k"
        using ws(2) gt k slice_append[of i ?j k s] by simp
      have b: "bounded m (length (slice s i ?j # ws))"
        using ws(4) m0 by (cases m) (auto simp: bounded_def m'_def)
      show ?thesis
      proof (rule R_I[of i k "slice s i ?j # ws" n m])
        show "i \<le> k" using gt k by simp
        show "k \<le> length s" by (rule k)
        show "set (slice s i ?j # ws) \<subseteq> L" using j ws(1) by simp
        show "concat (slice s i ?j # ws) = slice s i k" by (rule c)
        show "n \<le> length (slice s i ?j # ws)" using ws(3) by simp
        show "bounded m (length (slice s i ?j # ws))" by (rule b)
      qed
    next
      case stop
      show "k \<in> R i n m"
      proof (rule R_I[of i k "[]" n m])
        show "i \<le> k" using stop by simp
        show "k \<le> length s" using stop Suc.prems(1) by simp
        show "set [] \<subseteq> L" by simp
        show "concat [] = slice s i k" using stop by (simp add: slice_self)
        show "n \<le> length ([]::ustr list)" using stop by simp
        show "bounded m (length ([]::ustr list))" by (simp add: bounded_def split: option.splits)
      qed
    qed
  next
    fix k
    assume "k \<in> R i n m"
    from R_E[OF this] obtain ws where k: "i \<le> k" "k \<le> length s"
      and ws: "set ws \<subseteq> L" "concat ws = slice s i k" "n \<le> length ws" "bounded m (length ws)"
      by blast
    show "k \<in> (if m = Some 0 then {} else (\<Union>st' \<in> set nxt. R (fst st') (n - 1) m'))
        \<union> (if n = 0 then {i} else {})"
    proof (cases ws)
      case Nil
      then have "k = i" "n = 0"
        using ws k slice_empty[of i k s] by simp_all
      then show ?thesis by simp
    next
      case (Cons w ws')
      then have w: "w \<in> L" "w \<noteq> []" and ws': "set ws' \<subseteq> L"
        using ws(1) nonnull by auto
      have sp: "slice s i k = w @ concat ws'"
        using ws(2) Cons by simp
      let ?j = "i + length w"
      from slice_split[OF k sp]
      have j: "?j \<le> k" "slice s i ?j = w" "slice s ?j k = concat ws'" by simp_all
      have "?j \<in> fst ` set (f (i, c))"
        using f[OF Suc.prems(1), of c] j k w by simp
      then obtain st' where st': "st' \<in> set (f (i, c))" "fst st' = ?j" by auto
      then have nx: "st' \<in> set nxt"
        using w(2) by (simp add: nxt_def)
      have m0: "m \<noteq> Some 0"
        using ws(4) Cons by (auto simp: bounded_def)
      have b: "bounded m' (length ws')"
        using ws(4) Cons by (cases m) (auto simp: bounded_def m'_def)
      have n1: "n - 1 \<le> length ws'"
        using ws(3) Cons by simp
      have "k \<in> R (fst st') (n - 1) m'"
      proof (rule R_I[of "fst st'" k ws' "n - 1" m'])
        show "fst st' \<le> k" using j st' by simp
        show "k \<le> length s" by (rule k)
        show "set ws' \<subseteq> L" by (rule ws')
        show "concat ws' = slice s (fst st') k" using j st' by simp
        show "n - 1 \<le> length ws'" by (rule n1)
        show "bounded m' (length ws')" by (rule b)
      qed
      then show ?thesis
        using m0 nx by auto
    qed
  qed
  finally show ?case by (simp add: R_def)
qed


lemma slice_single: "i < length s \<Longrightarrow> slice s i (i + 1) = [s ! i]"
  by (simp add: slice_def take_Suc_conv_app_nth[of 0] hd_drop_conv_nth take_Suc)

lemma slice_is_single:
  assumes "i \<le> j" "j \<le> length s" "slice s i j = [x]"
  shows "j = i + 1 \<and> i < length s \<and> x = s ! i"
proof -
  have "j - i = 1" using slice_length[OF assms(1,2)] assms(3) by simp
  then have j: "j = i + 1" "i < length s" using assms by linarith+
  then show ?thesis using assms(3) slice_single[of i s] by simp
qed

lemma ways_ends:
  "plain r \<Longrightarrow> i \<le> length s \<Longrightarrow>
   fst ` set (ways r s (i, c)) = {j. i \<le> j \<and> j \<le> length s \<and> slice s i j \<in> lang r}"
proof (induction r arbitrary: i c)
  case (Cls k)
  show ?case
  proof (rule set_eqI, rule iffI)
    fix j
    assume "j \<in> fst ` set (ways (Cls k) s (i, c))"
    then have "j = i + 1" "i < length s" "in_cls k (s ! i)"
      by (auto split: if_splits)
    then show "j \<in> {j. i \<le> j \<and> j \<le> length s \<and> slice s i j \<in> lang (Cls k)}"
      using slice_single[of i s] by auto
  next
    fix j
    assume "j \<in> {j. i \<le> j \<and> j \<le> length s \<and> slice s i j \<in> lang (Cls k)}"
    then obtain x where "i \<le> j" "j \<le> length s" "slice s i j = [x]" "in_cls k x"
      by auto
    with slice_is_single[of i j s x] have "j = i + 1" "i < length s" "in_cls k (s ! i)"
      by simp_all
    then show "j \<in> fst ` set (ways (Cls k) s (i, c))"
      by simp
  qed
next
  case (NCls k)
  show ?case
  proof (rule set_eqI, rule iffI)
    fix j
    assume "j \<in> fst ` set (ways (NCls k) s (i, c))"
    then have "j = i + 1" "i < length s" "\<not> in_cls k (s ! i)"
      by (auto split: if_splits)
    then show "j \<in> {j. i \<le> j \<and> j \<le> length s \<and> slice s i j \<in> lang (NCls k)}"
      using slice_single[of i s] by auto
  next
    fix j
    assume "j \<in> {j. i \<le> j \<and> j \<le> length s \<and> slice s i j \<in> lang (NCls k)}"
    then obtain x where "i \<le> j" "j \<le> length s" "slice s i j = [x]" "\<not> in_cls k x"
      by auto
    with slice_is_single[of i j s x] have "j = i + 1" "i < length s" "\<not> in_cls k (s ! i)"
      by simp_all
    then show "j \<in> fst ` set (ways (NCls k) s (i, c))"
      by simp
  qed
next
  case (Rep r n m)
  then have pl: "plain r" and nn: "[] \<notin> lang r" by simp_all
  have f: "\<And>j c. j \<le> length s \<Longrightarrow>
             fst ` set (ways r s (j, c)) = {k. j \<le> k \<and> k \<le> length s \<and> slice s j k \<in> lang r}"
    using Rep.IH[OF pl] by blast
  have "fst ` set (rep_run (ways r s) n m (length s - i + 1) (i, c))
          = {k. i \<le> k \<and> k \<le> length s \<and>
                 (\<exists>ws. set ws \<subseteq> lang r \<and> concat ws = slice s i k \<and> n \<le> length ws
                       \<and> bounded m (length ws))}"
    using Rep.prems(2) by (intro rep_run_ends[OF f nn]) simp_all
  then show ?case by (auto simp: eq_commute[of "concat _"])
next
  case (Seq a b)
  then have pa: "plain a" and pb: "plain b" by simp_all
  have A: "fst ` set (ways a s (i, c)) = {j. i \<le> j \<and> j \<le> length s \<and> slice s i j \<in> lang a}"
    using Seq.IH(1)[OF pa Seq.prems(2)] .
  have B: "\<And>st. fst st \<le> length s \<Longrightarrow>
             fst ` set (ways b s st)
               = {k. fst st \<le> k \<and> k \<le> length s \<and> slice s (fst st) k \<in> lang b}"
  proof -
    fix st :: mstate
    assume "fst st \<le> length s"
    from Seq.IH(2)[OF pb this, of "snd st"]
    show "fst ` set (ways b s st)
               = {k. fst st \<le> k \<and> k \<le> length s \<and> slice s (fst st) k \<in> lang b}"
      by simp
  qed
  show ?case
  proof (rule set_eqI, rule iffI)
    fix k
    assume "k \<in> fst ` set (ways (Seq a b) s (i, c))"
    then obtain st where st: "st \<in> set (ways a s (i, c))" and k: "k \<in> fst ` set (ways b s st)"
      by auto
    from st have "fst st \<in> fst ` set (ways a s (i, c))" by (rule imageI)
    with A have j: "i \<le> fst st" "fst st \<le> length s" "slice s i (fst st) \<in> lang a" by simp_all
    from k B[OF j(2)] have kk: "fst st \<le> k" "k \<le> length s" "slice s (fst st) k \<in> lang b"
      by simp_all
    have "slice s i k = slice s i (fst st) @ slice s (fst st) k"
      using j kk by (intro slice_append)
    then show "k \<in> {j. i \<le> j \<and> j \<le> length s \<and> slice s i j \<in> lang (Seq a b)}"
      using j kk by auto
  next
    fix k
    assume "k \<in> {j. i \<le> j \<and> j \<le> length s \<and> slice s i j \<in> lang (Seq a b)}"
    then obtain x y where k: "i \<le> k" "k \<le> length s" and xy: "slice s i k = x @ y"
      "x \<in> lang a" "y \<in> lang b"
      by auto
    let ?j = "i + length x"
    from slice_split[OF k xy(1)]
    have j: "?j \<le> k" "slice s i ?j = x" "slice s ?j k = y" by simp_all
    then have "?j \<in> fst ` set (ways a s (i, c))"
      using A k xy by simp
    then obtain st where st: "st \<in> set (ways a s (i, c))" "fst st = ?j" by auto
    have "k \<in> fst ` set (ways b s st)"
      using B[of st] st(2) j k xy by simp
    then show "k \<in> fst ` set (ways (Seq a b) s (i, c))"
      using st(1) by auto
  qed
next
  case (Group g r)
  then have "fst ` set (ways r s (i, c)) = {j. i \<le> j \<and> j \<le> length s \<and> slice s i j \<in> lang r}"
    by simp
  moreover have "fst ` set (ways (Group g r) s (i, c)) = fst ` set (ways r s (i, c))"
    by (simp add: image_image)
  ultimately show ?case by simp
qed simp_all

lemma concat_map_concat:
  "concat (map f (concat (map g xs))) = concat (map (\<lambda>x. concat (map f (g x))) xs)"
  by (induction xs) simp_all

lemma ways_Seq_assoc: "ways (Seq a (Seq b c)) s st = ways (Seq (Seq a b) c) s st"
proof -
  have "ways (Seq b c) s = (\<lambda>x. concat (map (ways c s) (ways b s x)))"
    by (rule ext) simp
  then show ?thesis
    by (simp add: concat_map_concat)
qed

lemma concat_map_if: "concat (map (\<lambda>x. if P x then [x] else []) xs) = filter P xs"
  by (induction xs) simp_all

lemma ways_anchored:
  assumes "plain r"
  shows "ways (Seq BeginS (Seq r EndS)) s (0, []) \<noteq> [] \<longleftrightarrow> s \<in> lang r"
proof -
  have "ways EndS s = (\<lambda>st. if fst st = length s then [st] else [])"
    by (rule ext) simp
  then have "ways (Seq BeginS (Seq r EndS)) s (0, [])
          = filter (\<lambda>st. fst st = length s) (ways r s (0, []))"
    by (simp add: concat_map_if)
  then have "ways (Seq BeginS (Seq r EndS)) s (0, []) \<noteq> []
               \<longleftrightarrow> (\<exists>st \<in> set (ways r s (0, [])). fst st = length s)"
    by (simp add: filter_empty_conv)
  also have "\<dots> \<longleftrightarrow> length s \<in> fst ` set (ways r s (0, []))"
    by force
  also have "\<dots> \<longleftrightarrow> s \<in> lang r"
    using ways_ends[OF assms, of 0 s "[]"] by (simp add: slice_def)
  finally show ?thesis .
qed

lemma py_split_joined:
  "c \<notin> set x \<Longrightarrow> (\<forall>p \<in> set ps. c \<notin> set p) \<Longrightarrow>
   py_split c (x @ concat (map (\<lambda>p. c # p) ps)) = x # ps"
proof (induction ps arbitrary: x)
  case Nil
  then show ?case by (simp add: py_split_no_sep)
next
  case (Cons p ps)
  have "py_split c (x @ c # (p @ concat (map (\<lambda>p. c # p) ps)))
          = x # py_split c (p @ concat (map (\<lambda>p. c # p) ps))"
    using Cons.prems(1) by (rule py_split_append)
  also have "py_split c (p @ concat (map (\<lambda>p. c # p) ps)) = p # ps"
    using Cons.prems(2) by (intro Cons.IH) simp_all
  finally show ?case by simp
qed

lemma py_split_join:
  "py_split c s = x # ps \<Longrightarrow>
   s = x @ concat (map (\<lambda>p. c # p) ps) \<and> c \<notin> set x \<and> (\<forall>p \<in> set ps. c \<notin> set p)"
proof (induction s arbitrary: x ps)
  case Nil
  then show ?case by simp
next
  case (Cons a s)
  obtain y ys where ys: "py_split c s = y # ys"
    using py_split_not_Nil[of c s] by (cases "py_split c s") auto
  from Cons.IH[OF ys]
  have IH: "s = y @ concat (map (\<lambda>p. c # p) ys)" "c \<notin> set y" "\<forall>p \<in> set ys. c \<notin> set p"
    by simp_all
  show ?case
  proof (cases "a = c")
    case True
    then have "x = []" "ps = y # ys"
      using Cons.prems ys by simp_all
    then show ?thesis using IH True by simp
  next
    case False
    then have "x = a # y" "ps = ys"
      using Cons.prems ys by simp_all
    then show ?thesis using IH False by auto
  qed
qed

lemma trailing_sep_form:
  "concat (map (\<lambda>l. l @ [c]) ls) @ t = hd (ls @ [t]) @ concat (map (\<lambda>p. c # p) (tl (ls @ [t])))"
proof (induction ls)
  case Nil
  then show ?case by simp
next
  case (Cons l ls)
  then show ?case by (cases ls) simp_all
qed

lemma lang_Rep_Cls:
  "lang (Rep (Cls k) n m) = {t. list_all (in_cls k) t \<and> n \<le> length t \<and> bounded m (length t)}"
proof (rule set_eqI, rule iffI)
  fix t
  assume "t \<in> lang (Rep (Cls k) n m)"
  then obtain ws where ws: "t = concat ws" "set ws \<subseteq> {[c] | c. in_cls k c}" "n \<le> length ws"
    "bounded m (length ws)"
    by auto
  from ws(2) have "length (concat ws) = length ws \<and> list_all (in_cls k) (concat ws)"
    by (induction ws) auto
  then show "t \<in> {t. list_all (in_cls k) t \<and> n \<le> length t \<and> bounded m (length t)}"
    using ws by simp
next
  fix t
  assume "t \<in> {t. list_all (in_cls k) t \<and> n \<le> length t \<and> bounded m (length t)}"
  then have t: "list_all (in_cls k) t" "n \<le> length t" "bounded m (length t)" by simp_all
  have "concat (map (\<lambda>c. [c]) t) = t" by (induction t) simp_all
  moreover have "set (map (\<lambda>c. [c]) t) \<subseteq> {[c] | c. in_cls k c}"
    using t(1) by (auto simp: list_all_iff)
  ultimately show "t \<in> lang (Rep (Cls k) n m)"
    using t(2,3) by (simp, intro exI[of _ "map (\<lambda>c. [c]) t"]) simp
qed

lemma in_alnum_i_not_hyphen: "in_cls alnum_i c \<Longrightarrow> c \<noteq> hyphen \<and> c \<noteq> dot"
  by (auto simp: in_cls_def alnum_i_def letter_i_def digit_def hyphen_def dot_def ord_def)

lemma in_letter_i_not_dot: "in_cls letter_i c \<Longrightarrow> c \<noteq> dot"
  by (auto simp: in_cls_def letter_i_def dot_def ord_def)

lemma alnum_run_chars: "alnum_run p \<Longrightarrow> hyphen \<notin> set p \<and> dot \<notin> set p"
  using in_alnum_i_not_hyphen by (auto simp: alnum_run_def list_all_iff)

lemma lang_Chr: "lang (Chr c) = {[ord c]}"
  by (auto simp: Chr_def in_cls_def)

lemma lang_Rep:
  "lang (Rep r n m) = {concat ws | ws. set ws \<subseteq> lang r \<and> n \<le> length ws \<and> bounded m (length ws)}"
  by simp

lemma lang_Seq: "lang (Seq a b) = {x @ y | x y. x \<in> lang a \<and> y \<in> lang b}"
  by simp

lemma lang_alnum_plus: "lang (Plus (Cls alnum_i)) = {p. alnum_run p}"
proof -
  have "lang (Plus (Cls alnum_i))
          = {t. list_all (in_cls alnum_i) t \<and> 1 \<le> length t \<and> bounded None (length t)}"
    unfolding Plus_def by (rule lang_Rep_Cls)
  also have "\<dots> = {p. alnum_run p}"
    by (auto simp: alnum_run_def bounded_def Suc_le_eq)
  finally show ?thesis .
qed

lemma lang_hyphen_run:
  "lang (Seq (Chr CHR ''-'') (Plus (Cls alnum_i))) = {hyphen # p | p. alnum_run p}"
  unfolding lang_Seq lang_Chr lang_alnum_plus by (auto simp: hyphen_def ord_def)

lemma lang_hyphen_runs:
  "lang (Star (Seq (Chr CHR ''-'') (Plus (Cls alnum_i))))
     = {concat (map (\<lambda>p. hyphen # p) ps) | ps. list_all alnum_run ps}"
proof (rule set_eqI, rule iffI)
  fix y
  assume "y \<in> lang (Star (Seq (Chr CHR ''-'') (Plus (Cls alnum_i))))"
  then obtain ws where ws: "y = concat ws" "set ws \<subseteq> {hyphen # p | p. alnum_run p}"
    unfolding Star_def lang_Rep lang_hyphen_run by blast
  have "map (\<lambda>p. hyphen # p) (map tl ws) = ws \<and> list_all alnum_run (map tl ws)"
    using ws(2) by (induction ws) auto
  then show "y \<in> {concat (map (\<lambda>p. hyphen # p) ps) | ps. list_all alnum_run ps}"
    using ws(1) by (intro CollectI exI[of _ "map tl ws"]) simp
next
  fix y
  assume "y \<in> {concat (map (\<lambda>p. hyphen # p) ps) | ps. list_all alnum_run ps}"
  then obtain ps where ps: "y = concat (map (\<lambda>p. hyphen # p) ps)" "list_all alnum_run ps"
    by auto
  have "set (map (\<lambda>p. hyphen # p) ps) \<subseteq> lang (Seq (Chr CHR ''-'') (Plus (Cls alnum_i)))"
    using ps(2) unfolding lang_hyphen_run by (auto simp: list_all_iff)
  then show "y \<in> lang (Star (Seq (Chr CHR ''-'') (Plus (Cls alnum_i))))"
    unfolding Star_def lang_Rep using ps(1)
    by (intro CollectI exI[of _ "map (\<lambda>p. hyphen # p) ps"]) (simp add: bounded_def del: lang.simps)
qed

lemma url_label_iff:
  "url_label l \<longleftrightarrow>
     (\<exists>x ps. l = x @ concat (map (\<lambda>p. hyphen # p) ps) \<and> alnum_run x \<and> list_all alnum_run ps)"
proof
  assume l: "url_label l"
  obtain x ps where sp: "py_split hyphen l = x # ps"
    using py_split_not_Nil[of hyphen l] by (cases "py_split hyphen l") auto
  from py_split_join[OF sp] have "l = x @ concat (map (\<lambda>p. hyphen # p) ps)" by simp
  moreover have "alnum_run x" "list_all alnum_run ps"
    using l sp by (simp_all add: url_label_def)
  ultimately show "\<exists>x ps. l = x @ concat (map (\<lambda>p. hyphen # p) ps) \<and> alnum_run x
                     \<and> list_all alnum_run ps"
    by blast
next
  assume "\<exists>x ps. l = x @ concat (map (\<lambda>p. hyphen # p) ps) \<and> alnum_run x \<and> list_all alnum_run ps"
  then obtain x ps where l: "l = x @ concat (map (\<lambda>p. hyphen # p) ps)"
    and r: "alnum_run x" "list_all alnum_run ps"
    by blast
  have "py_split hyphen l = x # ps"
    unfolding l using r alnum_run_chars by (intro py_split_joined) (auto simp: list_all_iff)
  then show "url_label l"
    using r by (simp add: url_label_def)
qed

lemma url_label_no_dot: "url_label l \<Longrightarrow> dot \<notin> set l"
proof -
  assume "url_label l"
  then obtain x ps where l: "l = x @ concat (map (\<lambda>p. hyphen # p) ps)"
    and r: "alnum_run x" "list_all alnum_run ps"
    using url_label_iff by blast
  have "hyphen \<noteq> dot" by (simp add: hyphen_def dot_def)
  then show "dot \<notin> set l"
    unfolding l using r alnum_run_chars by (auto simp: list_all_iff)
qed

lemma url_tld_no_dot: "url_tld t \<Longrightarrow> dot \<notin> set t"
  using in_letter_i_not_dot by (auto simp: url_tld_def list_all_iff)

lemma lang_label_dot: "lang label_dot = {l @ [dot] | l. url_label l}"
proof (rule set_eqI, rule iffI)
  fix w
  assume "w \<in> lang label_dot"
  then obtain x y where w: "w = x @ y @ [dot]" and x: "alnum_run x"
    and y: "y \<in> lang (Star (Seq (Chr CHR ''-'') (Plus (Cls alnum_i))))"
    unfolding label_dot_def lang_Seq lang_alnum_plus lang_Chr
    by (auto simp: dot_def ord_def simp del: lang.simps)
  from y obtain ps where "y = concat (map (\<lambda>p. hyphen # p) ps)" "list_all alnum_run ps"
    unfolding lang_hyphen_runs by blast
  with x have "url_label (x @ y)"
    unfolding url_label_iff by blast
  then show "w \<in> {l @ [dot] | l. url_label l}"
    using w by auto
next
  fix w
  assume "w \<in> {l @ [dot] | l. url_label l}"
  then obtain l where w: "w = l @ [dot]" and l: "url_label l" by blast
  from l obtain x ps where lx: "l = x @ concat (map (\<lambda>p. hyphen # p) ps)"
    and r: "alnum_run x" "list_all alnum_run ps"
    using url_label_iff by blast
  have "concat (map (\<lambda>p. hyphen # p) ps) \<in> lang (Star (Seq (Chr CHR ''-'') (Plus (Cls alnum_i))))"
    unfolding lang_hyphen_runs using r(2) by blast
  moreover have "[dot] \<in> lang (Chr CHR ''.'')"
    by (simp add: lang_Chr dot_def ord_def)
  ultimately have "concat (map (\<lambda>p. hyphen # p) ps) @ [dot]
      \<in> lang (Seq (Star (Seq (Chr CHR ''-'') (Plus (Cls alnum_i)))) (Chr CHR ''.''))"
    unfolding lang_Seq by blast
  moreover have "x \<in> lang (Plus (Cls alnum_i))"
    using r(1) by (simp add: lang_alnum_plus)
  ultimately have "x @ concat (map (\<lambda>p. hyphen # p) ps) @ [dot] \<in> lang label_dot"
    unfolding label_dot_def lang_Seq[of "Plus (Cls alnum_i)"] by blast
  then show "w \<in> lang label_dot"
    using w lx by simp
qed

lemma lang_tld: "lang (Rep (Cls letter_i) 2 None) = {t. url_tld t}"
  unfolding lang_Rep_Cls by (auto simp: url_tld_def bounded_def)

lemma lang_domain:
  "lang (Seq (Plus label_dot) (Rep (Cls letter_i) 2 None))
     = {concat (map (\<lambda>l. l @ [dot]) ls) @ t | ls t.
          ls \<noteq> [] \<and> list_all url_label ls \<and> url_tld t}"
proof (rule set_eqI, rule iffI)
  fix d
  assume "d \<in> lang (Seq (Plus label_dot) (Rep (Cls letter_i) 2 None))"
  then obtain w t where wt: "d = w @ t" "w \<in> lang (Plus label_dot)"
    "t \<in> lang (Rep (Cls letter_i) 2 None)"
    unfolding lang_Seq by blast
  from wt(2) obtain ws where w: "w = concat ws" and ws: "set ws \<subseteq> lang label_dot" "1 \<le> length ws"
    unfolding Plus_def lang_Rep by blast
  have d: "d = concat ws @ t" using wt(1) w by simp
  have t: "url_tld t" using wt(3) unfolding lang_tld by simp
  have "map (\<lambda>l. l @ [dot]) (map butlast ws) = ws \<and> list_all url_label (map butlast ws)"
    using ws(1) unfolding lang_label_dot by (induction ws) auto
  moreover have "map butlast ws \<noteq> []" using ws(2) by auto
  ultimately show "d \<in> {concat (map (\<lambda>l. l @ [dot]) ls) @ t | ls t.
          ls \<noteq> [] \<and> list_all url_label ls \<and> url_tld t}"
    using d t by (intro CollectI exI[of _ "map butlast ws"] exI[of _ t]) simp
next
  fix d
  assume "d \<in> {concat (map (\<lambda>l. l @ [dot]) ls) @ t | ls t.
          ls \<noteq> [] \<and> list_all url_label ls \<and> url_tld t}"
  then obtain ls t where d: "d = concat (map (\<lambda>l. l @ [dot]) ls) @ t"
    and ls: "ls \<noteq> []" "list_all url_label ls" and t: "url_tld t"
    by blast
  have "set (map (\<lambda>l. l @ [dot]) ls) \<subseteq> lang label_dot"
    using ls(2) unfolding lang_label_dot by (auto simp: list_all_iff)
  moreover have "1 \<le> length (map (\<lambda>l. l @ [dot]) ls)"
    using ls(1) by (cases ls) simp_all
  ultimately have "concat (map (\<lambda>l. l @ [dot]) ls) \<in> lang (Plus label_dot)"
    unfolding Plus_def lang_Rep
    by (intro CollectI exI[of _ "map (\<lambda>l. l @ [dot]) ls"]) (simp add: bounded_def del: lang.simps)
  then have "concat (map (\<lambda>l. l @ [dot]) ls) \<in> lang (Plus label_dot)" .
  moreover have "t \<in> lang (Rep (Cls letter_i) 2 None)"
    using t unfolding lang_tld by simp
  ultimately show "d \<in> lang (Seq (Plus label_dot) (Rep (Cls letter_i) 2 None))"
    unfolding lang_Seq using d by blast
qed

lemma url_domain_form_iff:
  "url_domain_form d \<longleftrightarrow>
     (\<exists>ls t. ls \<noteq> [] \<and> list_all url_label ls \<and> url_tld t
            \<and> d = concat (map (\<lambda>l. l @ [dot]) ls) @ t)"
proof
  assume f: "url_domain_form d"
  obtain x ps where sp: "py_split dot d = x # ps"
    using py_split_not_Nil[of dot d] by (cases "py_split dot d") auto
  let ?ls = "butlast (x # ps)" and ?t = "last (x # ps)"
  have app: "?ls @ [?t] = x # ps" by simp
  have "d = x @ concat (map (\<lambda>p. dot # p) ps)"
    using py_split_join[OF sp] by simp
  also have "\<dots> = hd (?ls @ [?t]) @ concat (map (\<lambda>p. dot # p) (tl (?ls @ [?t])))"
    unfolding app by simp
  also have "\<dots> = concat (map (\<lambda>l. l @ [dot]) ?ls) @ ?t"
    by (rule trailing_sep_form[symmetric])
  finally have "d = concat (map (\<lambda>l. l @ [dot]) ?ls) @ ?t" .
  moreover have "?ls \<noteq> []" "list_all url_label ?ls" "url_tld ?t"
    using f sp by (auto simp: url_domain_form_def)
  ultimately show "\<exists>ls t. ls \<noteq> [] \<and> list_all url_label ls \<and> url_tld t
            \<and> d = concat (map (\<lambda>l. l @ [dot]) ls) @ t"
    by blast
next
  assume "\<exists>ls t. ls \<noteq> [] \<and> list_all url_label ls \<and> url_tld t
            \<and> d = concat (map (\<lambda>l. l @ [dot]) ls) @ t"
  then obtain ls t where ls: "ls \<noteq> []" "list_all url_label ls" and t: "url_tld t"
    and d: "d = concat (map (\<lambda>l. l @ [dot]) ls) @ t"
    by blast
  have nodot: "\<forall>p \<in> set (ls @ [t]). dot \<notin> set p"
    using ls(2) t url_label_no_dot url_tld_no_dot by (auto simp: list_all_iff)
  have "d = hd (ls @ [t]) @ concat (map (\<lambda>p. dot # p) (tl (ls @ [t])))"
    unfolding d by (rule trailing_sep_form)
  moreover have "dot \<notin> set (hd (ls @ [t]))" "\<forall>p \<in> set (tl (ls @ [t])). dot \<notin> set p"
    using nodot ls(1) by (cases ls; simp)+
  ultimately have "py_split dot d = hd (ls @ [t]) # tl (ls @ [t])"
    using py_split_joined[of dot "hd (ls @ [t])" "tl (ls @ [t])"] by simp
  then have "py_split dot d = ls @ [t]" by simp
  then show "url_domain_form d"
    using ls t by (cases ls) (simp_all add: url_domain_form_def)
qed

lemma url_allowed_unfold:
  "url_allowed = Seq BeginS (Seq (Plus label_dot) (Seq (Rep (Cls letter_i) 2 None) EndS))"
  by (simp add: url_allowed_def label_dot_def)

lemma plain_domain: "plain (Seq (Plus label_dot) (Rep (Cls letter_i) 2 None))"
proof -
  have "[] \<notin> lang label_dot"
    unfolding lang_label_dot by simp
  moreover have "plain label_dot"
  proof -
    have "[] \<notin> lang (Seq (Chr CHR ''-'') (Plus (Cls alnum_i)))"
      unfolding lang_hyphen_run by simp
    then show ?thesis
      by (simp add: label_dot_def Plus_def Star_def Chr_def)
  qed
  ultimately show ?thesis
    by (simp add: Plus_def)
qed

lemma url_allowed_form: "re_match url_allowed d \<noteq> None \<longleftrightarrow> url_domain_form d"
proof -
  let ?a = "Plus label_dot" and ?b = "Rep (Cls letter_i) 2 None"
  have "re_match url_allowed d \<noteq> None \<longleftrightarrow> ways url_allowed d (0, []) \<noteq> []"
    by (simp add: re_match_def split: list.splits)
  also have "ways url_allowed d (0, []) = ways (Seq ?a (Seq ?b EndS)) d (0, [])"
    unfolding url_allowed_unfold by simp
  also have "\<dots> = ways (Seq (Seq ?a ?b) EndS) d (0, [])"
    by (rule ways_Seq_assoc)
  also have "\<dots> = ways (Seq BeginS (Seq (Seq ?a ?b) EndS)) d (0, [])"
    by simp
  also have "\<dots> \<noteq> [] \<longleftrightarrow> d \<in> lang (Seq ?a ?b)"
    using plain_domain by (rule ways_anchored)
  also have "\<dots> \<longleftrightarrow> url_domain_form d"
    unfolding lang_domain url_domain_form_iff by blast
  finally show ?thesis .
qed

lemma list_all_replicate: "list_all P (replicate n x) \<longleftrightarrow> n = 0 \<or> P x"
  by (auto simp: list_all_iff)

section \<open>What the pattern of the candidate validator matches\<close>

text \<open>
  The look-arounds of the pattern read single positions of the string, so the end
  positions of a sequence are computed from the end positions of its parts.
\<close>

lemma ways_Seq_ends:
  assumes "fst ` set (ways a s (i, c)) = E"
    and "\<And>k c'. k \<in> E \<Longrightarrow> fst ` set (ways b s (k, c')) = B k"
  shows "fst ` set (ways (Seq a b) s (i, c)) = (\<Union>k\<in>E. B k)"
proof -
  have "fst ` set (ways (Seq a b) s (i, c))
          = (\<Union>st\<in>set (ways a s (i, c)). fst ` set (ways b s st))"
    by (simp add: image_UN)
  also have "\<dots> = (\<Union>st\<in>set (ways a s (i, c)). B (fst st))"
  proof (rule SUP_cong[OF refl])
    fix st
    assume "st \<in> set (ways a s (i, c))"
    then have "fst st \<in> E" using assms(1) by force
    from assms(2)[OF this, of "snd st"] show "fst ` set (ways b s st) = B (fst st)" by simp
  qed
  also have "\<dots> = (\<Union>k\<in>E. B k)"
    unfolding assms(1)[symmetric] by auto
  finally show ?thesis .
qed

lemma slice_snoc: "i \<le> k \<Longrightarrow> k < length s \<Longrightarrow> slice s i (k + 1) = slice s i k @ [s ! k]"
  using slice_append[of i k "k + 1" s] slice_single[of k s] by simp

lemma hd_slice: "i < k \<Longrightarrow> k \<le> length s \<Longrightarrow> hd (slice s i k) = s ! i"
  by (simp add: slice_def hd_drop_conv_nth)

lemma last_slice: "i < k \<Longrightarrow> k \<le> length s \<Longrightarrow> last (slice s i k) = s ! (k - 1)"
proof -
  assume a: "i < k" "k \<le> length s"
  then have l: "length (slice s i k) = k - i" by (simp add: slice_length)
  then have "slice s i k \<noteq> []" using a by auto
  then have "last (slice s i k) = slice s i k ! (k - i - 1)"
    using l by (simp add: last_conv_nth)
  also have "\<dots> = s ! (k - 1)"
    using a by (simp add: slice_def)
  finally show ?thesis .
qed

lemma lang_label_run:
  "lang (Rep (Cls ldh_i) 1 (Some 63))
     = {l. list_all (in_cls ldh_i) l \<and> 1 \<le> length l \<and> length l \<le> 63}"
  unfolding lang_Rep_Cls by (simp add: bounded_def)

lemma fuzz_unit_ends:
  assumes i: "i \<le> length s"
  shows "fst ` set (ways fuzz_unit s (i, c))
           = {j. i \<le> j \<and> j \<le> length s \<and> slice s i j \<in> {l @ [dot] | l. fuzz_label l}}"
proof -
  let ?R = "Rep (Cls ldh_i) 1 (Some 63)"
  define A0 where "A0 = (if i < length s \<and> s ! i = hyphen then {} else {i})"
  define B1 where "B1 = (\<lambda>k. {j. k \<le> j \<and> j \<le> length s \<and> slice s k j \<in> lang ?R})"
  define B2 where "B2 = (\<lambda>k. if 0 < k \<and> k \<le> length s \<and> s ! (k - 1) = hyphen then {} else {k})"
  define B3 where "B3 = (\<lambda>k. if k < length s \<and> s ! k = dot then {k + 1} else {})"
  have na: "fst ` set (ways (NotAhead (Chr CHR ''-'')) s (i, c)) = A0"
    by (simp add: Chr_def in_cls_def hyphen_def ord_def A0_def)
  have r: "fst ` set (ways ?R s (k, c')) = B1 k" if "k \<in> A0" for k c'
  proof -
    from that have "k = i" by (simp add: A0_def split: if_splits)
    moreover have "plain ?R" by simp
    ultimately show ?thesis
      unfolding B1_def using i by (intro ways_ends) simp_all
  qed
  have nb: "fst ` set (ways (NotBehind [(hyphen, hyphen)]) s (k, c')) = B2 k" for k c'
    by (simp add: in_cls_def B2_def)
  have cd: "fst ` set (ways (Chr CHR ''.'') s (k, c')) = B3 k" for k c'
    by (simp add: Chr_def in_cls_def dot_def ord_def B3_def)
  have s1: "fst ` set (ways (Seq (NotBehind [(hyphen, hyphen)]) (Chr CHR ''.'')) s (k, c'))
              = (\<Union>x\<in>B2 k. B3 x)" for k c'
    using nb cd by (rule ways_Seq_ends)
  have s2: "fst ` set (ways (Seq ?R (Seq (NotBehind [(hyphen, hyphen)]) (Chr CHR ''.''))) s (k, c'))
              = (\<Union>y\<in>B1 k. \<Union>x\<in>B2 y. B3 x)" if "k \<in> A0" for k c'
    using r[OF that] s1 by (rule ways_Seq_ends)
  have s3: "fst ` set (ways fuzz_unit s (i, c)) = (\<Union>k\<in>A0. \<Union>y\<in>B1 k. \<Union>x\<in>B2 y. B3 x)"
    unfolding fuzz_unit_def using na s2 by (rule ways_Seq_ends)
  show ?thesis
  proof (rule set_eqI, rule iffI)
    fix j
    assume "j \<in> fst ` set (ways fuzz_unit s (i, c))"
    then obtain k y x where k: "k \<in> A0" and y: "y \<in> B1 k" and x: "x \<in> B2 y" and j: "j \<in> B3 x"
      unfolding s3 by blast
    from k have ki: "k = i" and hi: "\<not> (i < length s \<and> s ! i = hyphen)"
      by (simp_all add: A0_def split: if_splits)
    from x have xy: "x = y" and hy: "\<not> (0 < y \<and> y \<le> length s \<and> s ! (y - 1) = hyphen)"
      by (simp_all add: B2_def split: if_splits)
    from j xy have jy: "j = y + 1" and yl: "y < length s" and yd: "s ! y = dot"
      by (simp_all add: B3_def split: if_splits)
    from y ki have iy: "i \<le> y" and run: "slice s i y \<in> lang ?R"
      by (simp_all add: B1_def)
    from run have l: "list_all (in_cls ldh_i) (slice s i y)" "1 \<le> length (slice s i y)"
      "length (slice s i y) \<le> 63"
      unfolding lang_label_run by simp_all
    have "length (slice s i y) = y - i" using iy yl by (simp add: slice_length)
    with l(2) have lt: "i < y" by simp
    have "hd (slice s i y) = s ! i" using lt yl by (simp add: hd_slice)
    moreover have "last (slice s i y) = s ! (y - 1)" using lt yl by (simp add: last_slice)
    ultimately have "fuzz_label (slice s i y)"
      using l hi hy lt yl by (simp add: fuzz_label_def)
    moreover have "slice s i j = slice s i y @ [dot]"
      unfolding jy using slice_snoc[OF iy yl] yd by simp
    ultimately show "j \<in> {j. i \<le> j \<and> j \<le> length s \<and> slice s i j \<in> {l @ [dot] | l. fuzz_label l}}"
      using iy yl jy by auto
  next
    fix j
    assume "j \<in> {j. i \<le> j \<and> j \<le> length s \<and> slice s i j \<in> {l @ [dot] | l. fuzz_label l}}"
    then obtain l where ij: "i \<le> j" "j \<le> length s" and sl: "slice s i j = l @ [dot]"
      and l: "fuzz_label l"
      by blast
    define y where "y = i + length l"
    from slice_split[OF ij sl] have yj: "y \<le> j" and sy: "slice s i y = l"
      and sd: "slice s y j = [dot]"
      by (simp_all add: y_def)
    from slice_is_single[OF yj ij(2) sd] have jy: "j = y + 1" and yl: "y < length s"
      and yd: "s ! y = dot"
      by simp_all
    from l have ln: "1 \<le> length l" by (simp add: fuzz_label_def)
    then have lt: "i < y" by (cases l) (simp_all add: y_def)
    have "hd l = s ! i" using hd_slice[OF lt, of s] yl sy by simp
    moreover have "last l = s ! (y - 1)" using last_slice[OF lt, of s] yl sy by simp
    ultimately have hi: "s ! i \<noteq> hyphen" and hy: "s ! (y - 1) \<noteq> hyphen"
      using l by (simp_all add: fuzz_label_def)
    have "i \<in> A0" using hi by (simp add: A0_def)
    moreover have "y \<in> B1 i"
      using lt yl sy l unfolding B1_def lang_label_run by (simp add: fuzz_label_def)
    moreover have "y \<in> B2 y" using hy by (simp add: B2_def)
    moreover have "j \<in> B3 y" using jy yl yd by (simp add: B3_def)
    ultimately show "j \<in> fst ` set (ways fuzz_unit s (i, c))"
      unfolding s3 by blast
  qed
qed

lemma fuzz_units_ends:
  assumes i: "i \<le> length s"
  shows "fst ` set (ways (Plus fuzz_unit) s (i, c))
           = {k. i \<le> k \<and> k \<le> length s \<and>
                 (\<exists>ls. ls \<noteq> [] \<and> list_all fuzz_label ls
                       \<and> slice s i k = concat (map (\<lambda>l. l @ [dot]) ls))}"
proof -
  let ?L = "{l @ [dot] | l. fuzz_label l}"
  have "fst ` set (rep_run (ways fuzz_unit s) 1 None (length s - i + 1) (i, c))
          = {k. i \<le> k \<and> k \<le> length s \<and>
                (\<exists>ws. set ws \<subseteq> ?L \<and> concat ws = slice s i k \<and> 1 \<le> length ws
                      \<and> bounded None (length ws))}"
  proof (rule rep_run_ends)
    show "fst ` set (ways fuzz_unit s (j, c)) = {k. j \<le> k \<and> k \<le> length s \<and> slice s j k \<in> ?L}"
      if "j \<le> length s" for j c
      using that by (rule fuzz_unit_ends)
    show "[] \<notin> ?L" by simp
    show "i \<le> length s" by (rule i)
    show "length s - i < length s - i + 1" by simp
  qed
  also have "\<dots> = {k. i \<le> k \<and> k \<le> length s \<and>
                 (\<exists>ls. ls \<noteq> [] \<and> list_all fuzz_label ls
                       \<and> slice s i k = concat (map (\<lambda>l. l @ [dot]) ls))}"
  proof (rule Collect_cong, rule conj_cong[OF refl], rule conj_cong[OF refl], rule iffI)
    fix k
    assume "\<exists>ws. set ws \<subseteq> ?L \<and> concat ws = slice s i k \<and> 1 \<le> length ws
                 \<and> bounded None (length ws)"
    then obtain ws where ws: "set ws \<subseteq> ?L" "concat ws = slice s i k" "1 \<le> length ws"
      by blast
    have "map (\<lambda>l. l @ [dot]) (map butlast ws) = ws \<and> list_all fuzz_label (map butlast ws)"
      using ws(1) by (induction ws) auto
    moreover have "map butlast ws \<noteq> []" using ws(3) by auto
    ultimately show "\<exists>ls. ls \<noteq> [] \<and> list_all fuzz_label ls
                       \<and> slice s i k = concat (map (\<lambda>l. l @ [dot]) ls)"
      using ws(2) by (intro exI[of _ "map butlast ws"]) simp
  next
    fix k
    assume "\<exists>ls. ls \<noteq> [] \<and> list_all fuzz_label ls
                \<and> slice s i k = concat (map (\<lambda>l. l @ [dot]) ls)"
    then obtain ls where ls: "ls \<noteq> []" "list_all fuzz_label ls"
      "slice s i k = concat (map (\<lambda>l. l @ [dot]) ls)"
      by blast
    have "set (map (\<lambda>l. l @ [dot]) ls) \<subseteq> ?L"
      using ls(2) by (auto simp: list_all_iff)
    moreover have "1 \<le> length (map (\<lambda>l. l @ [dot]) ls)"
      using ls(1) by (cases ls) simp_all
    ultimately show "\<exists>ws. set ws \<subseteq> ?L \<and> concat ws = slice s i k \<and> 1 \<le> length ws
                 \<and> bounded None (length ws)"
      using ls(3) by (intro exI[of _ "map (\<lambda>l. l @ [dot]) ls"]) (simp add: bounded_def)
  qed
  finally show ?thesis by (simp add: Plus_def)
qed

lemma lang_fuzz_tld: "lang (Rep (Cls letter_i) 2 (Some 63)) = {t. fuzz_tld t}"
  unfolding lang_Rep_Cls by (auto simp: bounded_def fuzz_tld_def)

lemma lang_opt_dot: "lang (Opt (Chr CHR ''.'')) = {[], [dot]}"
proof -
  have "lang (Opt (Chr CHR ''.'')) = {t. list_all (in_cls [(ord CHR ''.'', ord CHR ''.'')]) t
                                        \<and> 0 \<le> length t \<and> bounded (Some 1) (length t)}"
    unfolding Opt_def Chr_def by (rule lang_Rep_Cls)
  also have "\<dots> = {[], [dot]}"
  proof (rule set_eqI, rule iffI)
    fix t
    assume "t \<in> {t. list_all (in_cls [(ord CHR ''.'', ord CHR ''.'')]) t
                    \<and> 0 \<le> length t \<and> bounded (Some 1) (length t)}"
    then have a: "list_all (in_cls [(ord CHR ''.'', ord CHR ''.'')]) t" "length t \<le> 1"
      by (simp_all add: bounded_def)
    show "t \<in> {[], [dot]}"
    proof (cases t)
      case Nil
      then show ?thesis by simp
    next
      case (Cons x xs)
      then have "xs = []" using a(2) by simp
      moreover have "x = dot" using a(1) Cons by (simp add: in_cls_def dot_def ord_def)
      ultimately show ?thesis using Cons by simp
    qed
  next
    fix t
    assume "t \<in> {[], [dot]}"
    then show "t \<in> {t. list_all (in_cls [(ord CHR ''.'', ord CHR ''.'')]) t
                    \<and> 0 \<le> length t \<and> bounded (Some 1) (length t)}"
      by (auto simp: bounded_def in_cls_def dot_def ord_def)
  qed
  finally show ?thesis .
qed

lemma plain_fuzz_tail: "plain fuzz_tail"
  by (simp add: fuzz_tail_def Opt_def Chr_def)

lemma lang_fuzz_tail: "lang fuzz_tail = {t @ e | t e. fuzz_tld t \<and> (e = [] \<or> e = [dot])}"
  unfolding fuzz_tail_def lang_Seq lang_fuzz_tld lang_opt_dot by auto

lemma lang_Rep_NCls:
  "lang (Rep (NCls k) n m)
     = {t. list_all (\<lambda>c. \<not> in_cls k c) t \<and> n \<le> length t \<and> bounded m (length t)}"
proof (rule set_eqI, rule iffI)
  fix t
  assume "t \<in> lang (Rep (NCls k) n m)"
  then obtain ws where ws: "t = concat ws" "set ws \<subseteq> {[c] | c. \<not> in_cls k c}" "n \<le> length ws"
    "bounded m (length ws)"
    by auto
  from ws(2) have "length (concat ws) = length ws \<and> list_all (\<lambda>c. \<not> in_cls k c) (concat ws)"
    by (induction ws) auto
  then show "t \<in> {t. list_all (\<lambda>c. \<not> in_cls k c) t \<and> n \<le> length t \<and> bounded m (length t)}"
    using ws by simp
next
  fix t
  assume "t \<in> {t. list_all (\<lambda>c. \<not> in_cls k c) t \<and> n \<le> length t \<and> bounded m (length t)}"
  then have t: "list_all (\<lambda>c. \<not> in_cls k c) t" "n \<le> length t" "bounded m (length t)"
    by simp_all
  have "concat (map (\<lambda>c. [c]) t) = t" by (induction t) simp_all
  moreover have "set (map (\<lambda>c. [c]) t) \<subseteq> {[c] | c. \<not> in_cls k c}"
    using t(1) by (auto simp: list_all_iff)
  ultimately show "t \<in> lang (Rep (NCls k) n m)"
    using t(2,3) by (simp, intro exI[of _ "map (\<lambda>c. [c]) t"]) simp
qed

lemma ways_Seq_Dollar:
  assumes nl: "newline \<notin> set s"
    and e: "fst ` set (ways a s (i, c)) = {k. i \<le> k \<and> k \<le> length s \<and> P k}"
  shows "ways (Seq a Dollar) s (i, c) \<noteq> [] \<longleftrightarrow> i \<le> length s \<and> P (length s)"
proof -
  define D where "D = (\<lambda>k. if k = length s \<or> (k + 1 = length s \<and> s ! k = newline)
                            then {k} else {})"
  have "fst ` set (ways Dollar s (k, c')) = D k" for k c'
    by (simp add: D_def)
  with e have "fst ` set (ways (Seq a Dollar) s (i, c))
                 = (\<Union>k\<in>{k. i \<le> k \<and> k \<le> length s \<and> P k}. D k)"
    by (rule ways_Seq_ends)
  moreover have "D k = (if k = length s then {k} else {})" for k
  proof -
    have "s ! k \<noteq> newline" if "k + 1 = length s"
    proof -
      from that have "s ! k \<in> set s" by simp
      with nl show ?thesis by auto
    qed
    then show ?thesis by (auto simp: D_def)
  qed
  ultimately have E: "fst ` set (ways (Seq a Dollar) s (i, c))
                 = (\<Union>k\<in>{k. i \<le> k \<and> k \<le> length s \<and> P k}. if k = length s then {k} else {})"
    by simp
  have "(\<Union>k\<in>{k. i \<le> k \<and> k \<le> length s \<and> P k}. if k = length s then {k} else {}) \<noteq> {}
          \<longleftrightarrow> i \<le> length s \<and> P (length s)"
    by (auto split: if_splits)
  then have "fst ` set (ways (Seq a Dollar) s (i, c)) \<noteq> {} \<longleftrightarrow> i \<le> length s \<and> P (length s)"
    unfolding E .
  then show ?thesis
    by (simp only: image_is_empty set_empty)
qed

lemma fuzz_allowed_unfold:
  "fuzz_allowed =
     Seq (Ahead (Seq Caret (Seq (Rep any_char 4 (Some 253)) Dollar)))
       (Seq Caret (Seq (Plus fuzz_unit)
          (Seq (Rep (Cls letter_i) 2 (Some 63)) (Seq (Opt (Chr CHR ''.'')) Dollar))))"
  by (simp add: fuzz_allowed_def fuzz_unit_def ldh_i_def)

lemma fuzz_lookahead:
  assumes nl: "newline \<notin> set s"
  shows "ways (Seq Caret (Seq (Rep any_char 4 (Some 253)) Dollar)) s (0, []) \<noteq> []
           \<longleftrightarrow> 4 \<le> length s \<and> length s \<le> 253"
proof -
  let ?r = "Rep any_char 4 (Some 253)"
  have "plain ?r" by (simp add: any_char_def)
  then have "fst ` set (ways ?r s (0, []))
               = {k. 0 \<le> k \<and> k \<le> length s \<and> slice s 0 k \<in> lang ?r}"
    by (rule ways_ends) simp
  from ways_Seq_Dollar[OF nl this]
  have "ways (Seq ?r Dollar) s (0, []) \<noteq> [] \<longleftrightarrow> s \<in> lang ?r"
    by (simp add: slice_def)
  also have "\<dots> \<longleftrightarrow> 4 \<le> length s \<and> length s \<le> 253"
    using nl unfolding any_char_def lang_Rep_NCls
    by (auto simp: bounded_def list_all_iff in_cls_def)
  finally show ?thesis by simp
qed

lemma fuzz_body:
  assumes nl: "newline \<notin> set s"
  shows "ways (Seq Caret (Seq (Plus fuzz_unit)
            (Seq (Rep (Cls letter_i) 2 (Some 63)) (Seq (Opt (Chr CHR ''.'')) Dollar)))) s (0, [])
           \<noteq> [] \<longleftrightarrow> fuzz_form s"
proof -
  let ?P = "\<lambda>j. \<exists>k. k \<le> j \<and> (\<exists>ls. ls \<noteq> [] \<and> list_all fuzz_label ls
                        \<and> slice s 0 k = concat (map (\<lambda>l. l @ [dot]) ls))
                    \<and> slice s k j \<in> lang fuzz_tail"
  have t: "fst ` set (ways fuzz_tail s (k, c'))
             = {j. k \<le> j \<and> j \<le> length s \<and> slice s k j \<in> lang fuzz_tail}"
    if "k \<in> {k. 0 \<le> k \<and> k \<le> length s \<and>
                 (\<exists>ls. ls \<noteq> [] \<and> list_all fuzz_label ls
                       \<and> slice s 0 k = concat (map (\<lambda>l. l @ [dot]) ls))}" for k c'
    using that plain_fuzz_tail by (intro ways_ends) simp_all
  have "fst ` set (ways (Seq (Plus fuzz_unit) fuzz_tail) s (0, []))
          = (\<Union>k\<in>{k. 0 \<le> k \<and> k \<le> length s \<and>
                 (\<exists>ls. ls \<noteq> [] \<and> list_all fuzz_label ls
                       \<and> slice s 0 k = concat (map (\<lambda>l. l @ [dot]) ls))}.
               {j. k \<le> j \<and> j \<le> length s \<and> slice s k j \<in> lang fuzz_tail})"
    using fuzz_units_ends[of 0 s "[]"] t by (intro ways_Seq_ends) simp_all
  also have "\<dots> = {j. 0 \<le> j \<and> j \<le> length s \<and> ?P j}" (is "?lhs = ?rhs")
  proof (rule set_eqI, rule iffI)
    fix j
    assume "j \<in> ?lhs"
    then obtain k where "k \<le> j" "j \<le> length s" "slice s k j \<in> lang fuzz_tail"
      "\<exists>ls. ls \<noteq> [] \<and> list_all fuzz_label ls \<and> slice s 0 k = concat (map (\<lambda>l. l @ [dot]) ls)"
      by blast
    then show "j \<in> ?rhs" by blast
  next
    fix j
    assume "j \<in> ?rhs"
    then obtain k where k: "k \<le> j" "j \<le> length s" "slice s k j \<in> lang fuzz_tail"
      "\<exists>ls. ls \<noteq> [] \<and> list_all fuzz_label ls \<and> slice s 0 k = concat (map (\<lambda>l. l @ [dot]) ls)"
      by blast
    then have "k \<le> length s" by simp
    with k show "j \<in> ?lhs" by blast
  qed
  finally have e: "fst ` set (ways (Seq (Plus fuzz_unit) fuzz_tail) s (0, []))
                     = {j. 0 \<le> j \<and> j \<le> length s \<and> ?P j}" .
  have "ways (Seq (Rep (Cls letter_i) 2 (Some 63)) (Seq (Opt (Chr CHR ''.'')) Dollar)) s
          = ways (Seq fuzz_tail Dollar) s"
    unfolding fuzz_tail_def by (rule ext) (rule ways_Seq_assoc)
  then have "ways (Seq Caret (Seq (Plus fuzz_unit)
            (Seq (Rep (Cls letter_i) 2 (Some 63)) (Seq (Opt (Chr CHR ''.'')) Dollar)))) s (0, [])
          = ways (Seq (Plus fuzz_unit) (Seq fuzz_tail Dollar)) s (0, [])"
    by simp
  also have "\<dots> = ways (Seq (Seq (Plus fuzz_unit) fuzz_tail) Dollar) s (0, [])"
    by (rule ways_Seq_assoc)
  also have "\<dots> \<noteq> [] \<longleftrightarrow> ?P (length s)"
    using ways_Seq_Dollar[OF nl e] by simp
  also have "\<dots> \<longleftrightarrow> fuzz_form s"
  proof
    assume "?P (length s)"
    then obtain k ls where k: "k \<le> length s" and ls: "ls \<noteq> []" "list_all fuzz_label ls"
      "slice s 0 k = concat (map (\<lambda>l. l @ [dot]) ls)"
      and tl: "slice s k (length s) \<in> lang fuzz_tail"
      by blast
    from tl obtain t e where te: "slice s k (length s) = t @ e" "fuzz_tld t" "e = [] \<or> e = [dot]"
      unfolding lang_fuzz_tail by blast
    have "s = slice s 0 k @ slice s k (length s)"
      using slice_append[of 0 k "length s" s] k by (simp add: slice_def)
    then have "s = concat (map (\<lambda>l. l @ [dot]) ls) @ t @ e"
      using ls(3) te(1) by simp
    then show "fuzz_form s"
      unfolding fuzz_form_def using ls(1,2) te(2,3) by blast
  next
    assume "fuzz_form s"
    then obtain ls t e where ls: "ls \<noteq> []" "list_all fuzz_label ls" and t: "fuzz_tld t"
      and e: "e = [] \<or> e = [dot]" and s: "s = concat (map (\<lambda>l. l @ [dot]) ls) @ t @ e"
      unfolding fuzz_form_def by blast
    define k where "k = length (concat (map (\<lambda>l. l @ [dot]) ls))"
    have "slice s 0 (length s) = concat (map (\<lambda>l. l @ [dot]) ls) @ (t @ e)"
      using s by (simp add: slice_def)
    from slice_split[OF _ _ this]
    have "k \<le> length s" "slice s 0 k = concat (map (\<lambda>l. l @ [dot]) ls)"
      "slice s k (length s) = t @ e"
      by (simp_all add: k_def)
    moreover have "t @ e \<in> lang fuzz_tail"
      unfolding lang_fuzz_tail using t e by blast
    ultimately show "?P (length s)"
      using ls by auto
  qed
  finally show ?thesis .
qed

lemma fuzz_allowed_form:
  assumes nl: "newline \<notin> set s"
  shows "re_match fuzz_allowed s \<noteq> None
           \<longleftrightarrow> 4 \<le> length s \<and> length s \<le> 253 \<and> fuzz_form s"
proof -
  let ?x = "Seq Caret (Seq (Rep any_char 4 (Some 253)) Dollar)"
  let ?b = "Seq Caret (Seq (Plus fuzz_unit)
              (Seq (Rep (Cls letter_i) 2 (Some 63)) (Seq (Opt (Chr CHR ''.'')) Dollar)))"
  have "re_match fuzz_allowed s \<noteq> None \<longleftrightarrow> ways fuzz_allowed s (0, []) \<noteq> []"
    by (simp add: re_match_def split: list.splits)
  also have "ways fuzz_allowed s (0, [])
               = (if ways ?x s (0, []) = [] then [] else ways ?b s (0, []))"
    unfolding fuzz_allowed_unfold by simp
  also have "\<dots> \<noteq> [] \<longleftrightarrow> ways ?x s (0, []) \<noteq> [] \<and> ways ?b s (0, []) \<noteq> []"
    by simp
  also have "\<dots> \<longleftrightarrow> 4 \<le> length s \<and> length s \<le> 253 \<and> fuzz_form s"
    unfolding fuzz_lookahead[OF nl] fuzz_body[OF nl] by simp
  finally show ?thesis .
qed
section \<open>The fields \<open>__parse\<close> sets\<close>

lemmas rfc3986_eval =
  init_url_def contains_def re_match_def re_rfc3986_enhanced_def Opt_def Plus_def Star_def
  Chr_def chars_def space_def in_cls_def u_def ord_def newline_def group_def

lemma up_domain_parse_scheme: "up_domain (parse_scheme m p) = up_domain p"
  by (simp add: parse_scheme_def split: option.splits)

lemma up_domain_parse_path: "up_domain (parse_path m p) = up_domain p"
  by (simp add: parse_path_def split: option.splits)

lemma up_domain_parse_query: "up_domain (parse_query m p) = up_domain p"
  by (simp add: parse_query_def split: option.splits)

lemma parse_authority_empty:
  "\<not> truthy (group m ''authority'') \<Longrightarrow> parse_authority lib m p = Inr p"
  by (simp add: parse_authority_def truthy_def split: option.splits)


lemma up_authority_parse_path: "up_authority (parse_path m p) = up_authority p"
  by (simp add: parse_path_def split: option.splits)

lemma up_authority_parse_query: "up_authority (parse_query m p) = up_authority p"
  by (simp add: parse_query_def split: option.splits)

lemma url_validate_domain_cases: "d \<noteq> [] \<Longrightarrow> url_validate_domain d = Inr (url_accepted d)"
  unfolding url_validate_domain_def url_allowed_form url_accepted_def by (simp add: Let_def)

lemma UrlParser_authority:
  assumes a: "url_authority url = Some g"
    and d: "domain_of lib g \<noteq> []"
  shows "if url_accepted (domain_of lib g)
         then \<exists>p. UrlParser lib url = Inr p \<and> up_authority p = g \<and> up_domain p = domain_of lib g
         else UrlParser lib url = Inl (ValueError ''Invalid domain name'')"
proof -
  from a obtain m where m: "re_match re_rfc3986_enhanced (init_url url) = Some m"
    and g: "group m ''authority'' = Some g"
    by (auto simp: url_authority_def split: option.splits)
  have ne: "g \<noteq> []"
  proof
    assume "g = []"
    then have "domain_of lib g = []"
      by (simp add: domain_of_def lower_def is_ascii_def)
    with d show False by simp
  qed
  let ?p0 = "\<lparr>up_url = init_url url, up_scheme = [], up_authority = [], up_domain = [],
              up_path = [], up_query = []\<rparr>"
  let ?p1 = "(parse_scheme m ?p0)\<lparr>up_authority := g, up_domain := domain_of lib g\<rparr>"
  have pa: "parse_authority lib m (parse_scheme m ?p0) =
              (if url_accepted (domain_of lib g)
               then Inr ?p1 else Inl (ValueError ''Invalid domain name''))"
    using g ne url_validate_domain_cases[OF d]
    by (simp add: parse_authority_def domain_of_def Let_def)
  show ?thesis
  proof (cases "url_accepted (domain_of lib g)")
    case True
    then have "UrlParser lib url = Inr (parse_query m (parse_path m ?p1))"
      using m pa by (simp add: UrlParser_def parse_def)
    moreover have "up_authority (parse_query m (parse_path m ?p1)) = g"
      by (simp add: up_authority_parse_query up_authority_parse_path)
    moreover have "up_domain (parse_query m (parse_path m ?p1)) = domain_of lib g"
      by (simp add: up_domain_parse_query up_domain_parse_path)
    ultimately show ?thesis using True by auto
  next
    case False
    then have "UrlParser lib url = Inl (ValueError ''Invalid domain name'')"
      using m pa by (simp add: UrlParser_def parse_def)
    then show ?thesis using False by auto
  qed
qed

section \<open>The authority of a plain host\<close>

text \<open>
  The preferred way through a greedy repetition of a class is the longest run, and the
  preferred way through a sequence goes through the preferred way of its first part
  when the rest matches from there.
\<close>

lemma rep_run_first:
  "(\<And>j. i \<le> j \<Longrightarrow> j < e \<Longrightarrow> f (j, c) = [(j + 1, c)]) \<Longrightarrow> f (e, c) = [] \<Longrightarrow>
   i \<le> e \<Longrightarrow> n \<le> e - i \<Longrightarrow> e - i < fuel \<Longrightarrow>
   \<exists>zs. rep_run f n None fuel (i, c) = (e, c) # zs"
proof (induction fuel arbitrary: i n)
  case 0
  then show ?case by simp
next
  case (Suc fuel)
  show ?case
  proof (cases "i = e")
    case True
    then have "n = 0" using Suc.prems by simp
    then show ?thesis using True Suc.prems(2) by simp
  next
    case False
    then have lt: "i < e" using Suc.prems by simp
    then have w: "f (i, c) = [(i + 1, c)]"
      using Suc.prems(1)[of i] by simp
    have "\<exists>zs. rep_run f (n - 1) None fuel (i + 1, c) = (e, c) # zs"
    proof (rule Suc.IH)
      show "f (j, c) = [(j + 1, c)]" if "i + 1 \<le> j" "j < e" for j
        using that Suc.prems(1)[of j] by simp
      show "f (e, c) = []" by (rule Suc.prems(2))
      show "i + 1 \<le> e" using lt by simp
      show "n - 1 \<le> e - (i + 1)" using Suc.prems(4) by simp
      show "e - (i + 1) < fuel" using Suc.prems(5) lt by simp
    qed
    then obtain zs where "rep_run f (n - 1) None fuel (i + 1, c) = (e, c) # zs" by blast
    then show ?thesis using w by simp
  qed
qed

lemma ways_NCls_run_first:
  assumes "\<And>j. i \<le> j \<Longrightarrow> j < e \<Longrightarrow> \<not> in_cls k (s ! j)"
    and "e \<le> length s" and "e = length s \<or> in_cls k (s ! e)"
    and "i \<le> e" and "n \<le> e - i"
  shows "\<exists>zs. ways (Rep (NCls k) n None) s (i, c) = (e, c) # zs"
proof -
  have "\<exists>zs. rep_run (ways (NCls k) s) n None (length s - i + 1) (i, c) = (e, c) # zs"
  proof (rule rep_run_first)
    show "ways (NCls k) s (j, c) = [(j + 1, c)]" if "i \<le> j" "j < e" for j
      using that assms(1)[of j] assms(2) by simp
    show "ways (NCls k) s (e, c) = []"
      using assms(3) by auto
    show "i \<le> e" by (rule assms(4))
    show "n \<le> e - i" by (rule assms(5))
    show "e - i < length s - i + 1" using assms(2) by simp
  qed
  then show ?thesis by simp
qed

lemma ways_Seq_first:
  "ways a s st = x # xs \<Longrightarrow> ways b s x = y # ys \<Longrightarrow> \<exists>zs. ways (Seq a b) s st = y # zs"
  by simp

lemma ways_Group_first:
  "ways r s (i, c) = (j, c') # xs \<Longrightarrow>
   \<exists>zs. ways (Group g r) s (i, c) = (j, (g, slice s i j) # c') # zs"
  by (simp add: slice_def)

lemma ways_Opt_first:
  assumes "ways r s st = x # xs" "fst st < fst x"
  shows "\<exists>zs. ways (Opt r) s st = x # zs"
proof -
  have "rep_run (ways r s) 0 (Some 0) fu x = [x]" for fu
    by (cases fu) simp_all
  then show ?thesis
    using assms by (simp add: Opt_def)
qed

lemma ways_Opt_none: "ways r s st = [] \<Longrightarrow> ways (Opt r) s st = [st]"
  by (simp add: Opt_def)

lemma Chr_at: "i < length s \<Longrightarrow> s ! i = ord ch \<Longrightarrow> ways (Chr ch) s (i, c) = [(i + 1, c)]"
  by (simp add: Chr_def in_cls_def)

lemma Chr_at_end: "ways (Chr ch) s (length s, c) = []"
  by (simp add: Chr_def)

lemma plain_host_init_url:
  assumes "plain_host h"
  shows "init_url h = u ''http://'' @ h"
proof -
  have c: "ord CHR '':'' \<notin> set h"
  proof
    assume "ord CHR '':'' \<in> set h"
    with assms have "\<not> in_cls (chars '':/?#'' @ space) (ord CHR '':'')"
      by (auto simp: plain_host_def list_all_iff)
    then show False by (simp add: in_cls_def chars_def)
  qed
  have "take (length (u ''://'')) (drop i h) \<noteq> u ''://''" for i
  proof
    assume e: "take (length (u ''://'')) (drop i h) = u ''://''"
    have "ord CHR '':'' \<in> set (u ''://'')" by (simp add: u_def)
    with e have "ord CHR '':'' \<in> set (take (length (u ''://'')) (drop i h))" by simp
    then have "ord CHR '':'' \<in> set h"
      by (meson in_set_dropD in_set_takeD)
    with c show False by simp
  qed
  then have "\<not> contains (u ''://'') h"
    by (simp add: contains_def list_ex_iff)
  then show ?thesis by (simp add: init_url_def)
qed

lemma url_authority_plain_host:
  assumes h: "plain_host h"
  shows "url_authority h = Some h"
proof -
  define s where "s = u ''http://'' @ h"
  define A1 where "A1 = chars '':/?#'' @ space"
  define A2 where "A2 = chars ''/?#'' @ space"
  define A3 where "A3 = chars ''?#'' @ space"
  define A4 where "A4 = chars ''#'' @ space"
  define o1 where "o1 = Opt (seqs (Group ''scheme'' (Plus (NCls A1))) [Chr CHR '':''])"
  define o2 where "o2 = Opt (seqs (Chr CHR ''/'')
                               [Chr CHR ''/'', Group ''authority'' (Star (NCls A2))])"
  define gp where "gp = Group ''path'' (Star (NCls A3))"
  define o4 where "o4 = Opt (seqs (Chr CHR ''?'') [Group ''query'' (Star (NCls A4))])"
  define o5 where "o5 = Opt (seqs (Chr CHR ''#'') [Group ''fragment'' (Star (NCls space))])"
  have re: "re_rfc3986_enhanced = Seq CaretM (Seq o1 (Seq o2 (Seq gp (Seq o4 (Seq o5 DollarM)))))"
    by (simp add: re_rfc3986_enhanced_def o1_def o2_def gp_def o4_def o5_def A1_def A2_def
        A3_def A4_def)
  have len: "length s = 7 + length h" by (simp add: s_def u_def)
  have pre: "s ! 0 = ord CHR ''h''" "s ! 1 = ord CHR ''t''" "s ! 2 = ord CHR ''t''"
    "s ! 3 = ord CHR ''p''" "s ! 4 = ord CHR '':''" "s ! 5 = ord CHR ''/''"
    "s ! 6 = ord CHR ''/''"
    by (simp_all add: s_def u_def)
  have host: "\<not> in_cls A1 (s ! j)" if "7 \<le> j" "j < length s" for j
  proof -
    have "length (u ''http://'') = 7" by (simp add: u_def)
    then have "s ! j = h ! (j - 7)" using that by (simp add: s_def nth_append)
    moreover have "h ! (j - 7) \<in> set h" using that len by simp
    ultimately show ?thesis
      using h by (auto simp: plain_host_def list_all_iff A1_def)
  qed
  have sub: "in_cls A2 c \<Longrightarrow> in_cls A1 c" "in_cls A3 c \<Longrightarrow> in_cls A1 c" for c
    by (auto simp: in_cls_def A1_def A2_def A3_def chars_def)
  have sl: "slice s 7 (length s) = h"
    by (simp add: slice_def s_def u_def)
  have "\<exists>zs. ways (Rep (NCls A1) 1 None) s (0, []) = (4, []) # zs"
  proof (rule ways_NCls_run_first)
    show "\<not> in_cls A1 (s ! j)" if "0 \<le> j" "j < 4" for j
    proof -
      from that have "j = 0 \<or> j = 1 \<or> j = 2 \<or> j = 3" by auto
      then show ?thesis
        using pre by (auto simp: in_cls_def A1_def chars_def space_def ord_def)
    qed
    show "4 \<le> length s" using len by simp
    show "4 = length s \<or> in_cls A1 (s ! 4)"
      using pre by (simp add: in_cls_def A1_def chars_def)
  qed simp_all
  then obtain z1 where "ways (Plus (NCls A1)) s (0, []) = (4, []) # z1"
    by (auto simp: Plus_def)
  from ways_Group_first[OF this, of "''scheme''"]
  obtain z2 where "ways (Group ''scheme'' (Plus (NCls A1))) s (0, [])
                     = (4, [(''scheme'', slice s 0 4)]) # z2"
    by blast
  moreover have "ways (Chr CHR '':'') s (4, [(''scheme'', slice s 0 4)])
                   = [(5, [(''scheme'', slice s 0 4)])]"
    using Chr_at[of 4 s "CHR '':''"] pre len by simp
  ultimately obtain z3 where
    "ways (Seq (Group ''scheme'' (Plus (NCls A1))) (Chr CHR '':'')) s (0, [])
       = (5, [(''scheme'', slice s 0 4)]) # z3"
    using ways_Seq_first by blast
  then have "\<exists>zs. ways o1 s (0, []) = (5, [(''scheme'', slice s 0 4)]) # zs"
    unfolding o1_def seqs.simps by (rule ways_Opt_first) simp
  then obtain z4 where w1: "ways o1 s (0, []) = (5, [(''scheme'', slice s 0 4)]) # z4"
    by blast
  define c1 where "c1 = [(''scheme'', slice s 0 4)]"
  have "\<exists>zs. ways (Rep (NCls A2) 0 None) s (7, c1) = (length s, c1) # zs"
  proof (rule ways_NCls_run_first)
    show "\<not> in_cls A2 (s ! j)" if "7 \<le> j" "j < length s" for j
      using host[OF that] sub by blast
    show "7 \<le> length s" using len by simp
  qed simp_all
  then obtain z5 where "ways (Star (NCls A2)) s (7, c1) = (length s, c1) # z5"
    by (auto simp: Star_def)
  from ways_Group_first[OF this, of "''authority''"]
  obtain z6 where a3: "ways (Group ''authority'' (Star (NCls A2))) s (7, c1)
                         = (length s, (''authority'', h) # c1) # z6"
    unfolding sl by blast
  have a1: "ways (Chr CHR ''/'') s (5, c1) = [(6, c1)]"
    using Chr_at[of 5 s "CHR ''/''"] pre len by simp
  have a2: "ways (Chr CHR ''/'') s (6, c1) = [(7, c1)]"
    using Chr_at[of 6 s "CHR ''/''"] pre len by simp
  from ways_Seq_first[OF a2 a3] obtain z7 where
    "ways (Seq (Chr CHR ''/'') (Group ''authority'' (Star (NCls A2)))) s (6, c1)
       = (length s, (''authority'', h) # c1) # z7"
    by blast
  from ways_Seq_first[OF a1 this] obtain z8 where
    "ways (Seq (Chr CHR ''/'') (Seq (Chr CHR ''/'') (Group ''authority'' (Star (NCls A2)))))
       s (5, c1) = (length s, (''authority'', h) # c1) # z8"
    by blast
  then have "\<exists>zs. ways o2 s (5, c1) = (length s, (''authority'', h) # c1) # zs"
    unfolding o2_def seqs.simps by (rule ways_Opt_first) (simp add: len)
  then obtain z9 where w2: "ways o2 s (5, c1) = (length s, (''authority'', h) # c1) # z9"
    by blast
  define c2 where "c2 = (''authority'', h) # c1"
  have "\<exists>zs. ways (Rep (NCls A3) 0 None) s (length s, c2) = (length s, c2) # zs"
    by (rule ways_NCls_run_first) simp_all
  then obtain z10 where "ways (Star (NCls A3)) s (length s, c2) = (length s, c2) # z10"
    by (auto simp: Star_def)
  from ways_Group_first[OF this, of "''path''"]
  obtain z11 where w3: "ways gp s (length s, c2) = (length s, (''path'', []) # c2) # z11"
    unfolding gp_def slice_self by blast
  define c3 where "c3 = (''path'', []) # c2"
  have w4: "ways o4 s (length s, c3) = [(length s, c3)]"
    unfolding o4_def seqs.simps by (rule ways_Opt_none) (simp add: Chr_at_end)
  have w5: "ways o5 s (length s, c3) = [(length s, c3)]"
    unfolding o5_def seqs.simps by (rule ways_Opt_none) (simp add: Chr_at_end)
  have w6: "ways DollarM s (length s, c3) = [(length s, c3)]" by simp
  have w0: "ways CaretM s (0, []) = [(0, [])]" by simp
  from ways_Seq_first[OF w5 w6] obtain y1 where
    "ways (Seq o5 DollarM) s (length s, c3) = (length s, c3) # y1" by blast
  from ways_Seq_first[OF w4 this] obtain y2 where
    "ways (Seq o4 (Seq o5 DollarM)) s (length s, c3) = (length s, c3) # y2" by blast
  from ways_Seq_first[OF w3[folded c3_def] this] obtain y3 where
    "ways (Seq gp (Seq o4 (Seq o5 DollarM))) s (length s, c2) = (length s, c3) # y3" by blast
  from ways_Seq_first[OF w2[folded c2_def] this] obtain y4 where
    "ways (Seq o2 (Seq gp (Seq o4 (Seq o5 DollarM)))) s (5, c1) = (length s, c3) # y4" by blast
  from ways_Seq_first[OF w1[folded c1_def] this] obtain y5 where
    "ways (Seq o1 (Seq o2 (Seq gp (Seq o4 (Seq o5 DollarM))))) s (0, []) = (length s, c3) # y5"
    by blast
  from ways_Seq_first[OF w0 this] obtain y6 where
    "ways re_rfc3986_enhanced s (0, []) = (length s, c3) # y6"
    unfolding re by blast
  then have "re_match re_rfc3986_enhanced s = Some (length s, c3)"
    by (simp add: re_match_def)
  moreover have "group (length s, c3) ''authority'' = Some h"
    by (simp add: group_def c3_def c2_def)
  ultimately show ?thesis
    by (simp add: url_authority_def plain_host_init_url[OF h] s_def)
qed


lemma domain_of_plain_host:
  assumes "plain_host h"
  shows "domain_of lib h = lower lib h"
proof -
  have "ord CHR '':'' \<notin> set h"
  proof
    assume "ord CHR '':'' \<in> set h"
    with assms have "\<not> in_cls (chars '':/?#'' @ space) (ord CHR '':'')"
      by (auto simp: plain_host_def list_all_iff)
    then show False by (simp add: in_cls_def chars_def)
  qed
  then show ?thesis
    by (simp add: domain_of_def py_split_no_sep)
qed
section \<open>What the candidate validator accepts\<close>

text \<open>
  On a name of ASCII characters without a newline the codec returns the name itself, so
  the validator accepts it exactly when it has 4 to 253 characters and the form the
  pattern matches. For the name reassembled from a registrable string in a valid
  context this is a condition on the registrable string alone.
\<close>

lemma split_concat: "concat (map (\<lambda>l. l @ [c]) (py_split c s)) = s @ [c]"
proof (induction s)
  case Nil
  then show ?case by simp
next
  case (Cons x xs)
  obtain y ys where ys: "py_split c xs = y # ys"
    using py_split_not_Nil[of c xs] by (cases "py_split c xs") auto
  with Cons show ?case by auto
qed

lemma split_butlast_last:
  "concat (map (\<lambda>l. l @ [c]) (butlast (py_split c s))) @ last (py_split c s) = s"
proof -
  have "py_split c s = butlast (py_split c s) @ [last (py_split c s)]"
    using py_split_not_Nil[of c s] by simp
  then have "concat (map (\<lambda>l. l @ [c]) (butlast (py_split c s) @ [last (py_split c s)])) = s @ [c]"
    using split_concat[of c s] by simp
  then show ?thesis by simp
qed

lemma py_split_labels:
  "(\<forall>p \<in> set ls. c \<notin> set p) \<Longrightarrow> c \<notin> set t \<Longrightarrow>
   py_split c (concat (map (\<lambda>l. l @ [c]) ls) @ t) = ls @ [t]"
proof (induction ls)
  case Nil
  then show ?case by (simp add: py_split_no_sep)
next
  case (Cons l ls)
  have "py_split c (l @ c # (concat (map (\<lambda>l. l @ [c]) ls) @ t))
          = l # py_split c (concat (map (\<lambda>l. l @ [c]) ls) @ t)"
    using Cons.prems(1) by (intro py_split_append) simp
  then show ?case using Cons by simp
qed

lemma in_ldh_i_iff: "c < 128 \<Longrightarrow> in_cls ldh_i c \<longleftrightarrow> ldh c"
  by (auto simp: in_cls_def ldh_i_def letter_i_def digit_def ldh_def ascii_letter_def ord_def)

lemma ldh_in_ldh_i: "ldh c \<Longrightarrow> in_cls ldh_i c"
  by (auto simp: in_cls_def ldh_i_def letter_i_def digit_def ldh_def ascii_letter_def ord_def
      hyphen_def)

lemma ascii_letter_in_letter_i: "ascii_letter c \<Longrightarrow> in_cls letter_i c"
  by (auto simp: in_cls_def letter_i_def ascii_letter_def ord_def)

lemma in_ldh_i_not_dot: "in_cls ldh_i c \<Longrightarrow> c \<noteq> dot \<and> c \<noteq> newline"
  by (auto simp: in_cls_def ldh_i_def letter_i_def digit_def ord_def hyphen_def dot_def
      newline_def)

lemma in_letter_i_not_newline: "in_cls letter_i c \<Longrightarrow> c \<noteq> newline"
  by (auto simp: in_cls_def letter_i_def ord_def newline_def)

lemma fuzz_label_chars: "fuzz_label l \<Longrightarrow> dot \<notin> set l \<and> newline \<notin> set l"
  using in_ldh_i_not_dot by (auto simp: fuzz_label_def list_all_iff)

lemma fuzz_tld_chars: "fuzz_tld t \<Longrightarrow> dot \<notin> set t \<and> newline \<notin> set t"
  using in_letter_i_not_dot in_letter_i_not_newline by (auto simp: fuzz_tld_def list_all_iff)

lemma fuzz_form_split:
  assumes "fuzz_form s"
  shows "\<exists>ls t. py_split dot s = ls @ [t] \<and> ls \<noteq> []
               \<and> (\<forall>l \<in> set ls. 0 < length l \<and> length l < 64) \<and> length t < 64"
proof -
  from assms obtain ls t e where ls: "ls \<noteq> []" "list_all fuzz_label ls" and t: "fuzz_tld t"
    and e: "e = [] \<or> e = [dot]" and s: "s = concat (map (\<lambda>l. l @ [dot]) ls) @ t @ e"
    unfolding fuzz_form_def by blast
  have nd: "\<forall>p \<in> set ls. dot \<notin> set p" "dot \<notin> set t"
    using ls(2) t fuzz_label_chars fuzz_tld_chars by (auto simp: list_all_iff)
  have len: "\<forall>l \<in> set ls. 0 < length l \<and> length l < 64" "0 < length t \<and> length t < 64"
    using ls(2) t by (auto simp: list_all_iff fuzz_label_def fuzz_tld_def)
  from e show ?thesis
  proof
    assume "e = []"
    then have "py_split dot s = ls @ [t]"
      using s py_split_labels[of ls dot t] nd by simp
    then show ?thesis using ls(1) len by blast
  next
    assume "e = [dot]"
    then have "s = concat (map (\<lambda>l. l @ [dot]) (ls @ [t])) @ []"
      using s by simp
    moreover have "\<forall>p \<in> set (ls @ [t]). dot \<notin> set p" using nd by simp
    ultimately have "py_split dot s = (ls @ [t]) @ [[]]"
      using py_split_labels[of "ls @ [t]" dot "[]"] by simp
    moreover have "\<forall>l \<in> set (ls @ [t]). 0 < length l \<and> length l < 64"
      using len by simp
    ultimately show ?thesis
      by (intro exI[of _ "ls @ [t]"] exI[of _ "[]"]) simp
  qed
qed

lemma fuzz_form_idna:
  assumes "fuzz_form s" "is_ascii s"
  shows "idna_encode lib s = Some s"
proof -
  from fuzz_form_split[OF assms(1)] obtain ls t where
    sp: "py_split dot s = ls @ [t]" and len: "\<forall>l \<in> set ls. 0 < length l \<and> length l < 64"
    "length t < 64"
    by blast
  then show ?thesis
    using assms(2) by (simp add: idna_encode_def list_all_iff)
qed

lemma validate_domain_ascii:
  assumes a: "is_ascii s" and nl: "newline \<notin> set s"
  shows "validate_domain lib s \<longleftrightarrow> 4 \<le> length s \<and> length s \<le> 253 \<and> fuzz_form s"
proof
  assume v: "validate_domain lib s"
  then obtain di where di: "idna_encode lib s = Some di"
    by (auto simp: validate_domain_def split: option.splits)
  then have "di = s"
    using a by (auto simp: idna_encode_def Let_def split: if_splits)
  with v di have "re_match fuzz_allowed s \<noteq> None"
    by (simp add: validate_domain_def)
  then show "4 \<le> length s \<and> length s \<le> 253 \<and> fuzz_form s"
    using fuzz_allowed_form[OF nl] by simp
next
  assume f: "4 \<le> length s \<and> length s \<le> 253 \<and> fuzz_form s"
  then have "idna_encode lib s = Some s"
    using a by (intro fuzz_form_idna) simp_all
  moreover have "re_match fuzz_allowed s \<noteq> None"
    using f fuzz_allowed_form[OF nl] by simp
  ultimately show "validate_domain lib s"
    by (simp add: validate_domain_def)
qed

lemma py_split_append_gen: "py_split c (a @ c # b) = py_split c a @ py_split c b"
proof (induction a)
  case Nil
  then show ?case by simp
next
  case (Cons x xs)
  obtain y ys where ys: "py_split c xs = y # ys"
    using py_split_not_Nil[of c xs] by (cases "py_split c xs") auto
  with Cons show ?case by auto
qed

lemma py_split_piece: "p \<in> set (py_split c s) \<Longrightarrow> c \<notin> set p"
proof -
  assume p: "p \<in> set (py_split c s)"
  obtain x ps where sp: "py_split c s = x # ps"
    using py_split_not_Nil[of c s] by (cases "py_split c s") auto
  from py_split_join[OF sp] p sp show ?thesis by auto
qed

lemma py_split_chars: "x \<in> set s \<Longrightarrow> x = c \<or> (\<exists>p \<in> set (py_split c s). x \<in> set p)"
proof (induction s)
  case Nil
  then show ?case by simp
next
  case (Cons a s)
  obtain y ys where ys: "py_split c s = y # ys"
    using py_split_not_Nil[of c s] by (cases "py_split c s") auto
  with Cons show ?case by auto
qed

lemma fuzz_form_split_iff:
  assumes "last (py_split dot s) \<noteq> []"
  shows "fuzz_form s \<longleftrightarrow>
           butlast (py_split dot s) \<noteq> [] \<and> list_all fuzz_label (butlast (py_split dot s))
           \<and> fuzz_tld (last (py_split dot s))"
proof
  assume "fuzz_form s"
  then obtain ls t e where ls: "ls \<noteq> []" "list_all fuzz_label ls" and t: "fuzz_tld t"
    and e: "e = [] \<or> e = [dot]" and s: "s = concat (map (\<lambda>l. l @ [dot]) ls) @ t @ e"
    unfolding fuzz_form_def by blast
  have nd: "\<forall>p \<in> set ls. dot \<notin> set p" "dot \<notin> set t"
    using ls(2) t fuzz_label_chars fuzz_tld_chars by (auto simp: list_all_iff)
  have "e = []"
  proof (rule ccontr)
    assume "e \<noteq> []"
    with e have "s = concat (map (\<lambda>l. l @ [dot]) (ls @ [t])) @ []"
      using s by simp
    moreover have "\<forall>p \<in> set (ls @ [t]). dot \<notin> set p" using nd by simp
    ultimately have "py_split dot s = (ls @ [t]) @ [[]]"
      using py_split_labels[of "ls @ [t]" dot "[]"] by simp
    with assms show False by simp
  qed
  then have "py_split dot s = ls @ [t]"
    using s py_split_labels[of ls dot t] nd by simp
  then show "butlast (py_split dot s) \<noteq> [] \<and> list_all fuzz_label (butlast (py_split dot s))
           \<and> fuzz_tld (last (py_split dot s))"
    using ls t by simp
next
  assume a: "butlast (py_split dot s) \<noteq> [] \<and> list_all fuzz_label (butlast (py_split dot s))
           \<and> fuzz_tld (last (py_split dot s))"
  have "s = concat (map (\<lambda>l. l @ [dot]) (butlast (py_split dot s))) @ last (py_split dot s) @ []"
    using split_butlast_last[of dot s] by simp
  with a show "fuzz_form s"
    unfolding fuzz_form_def by blast
qed

lemma lower_ldh_ldh: "lower_ldh c \<Longrightarrow> ldh c"
  by (auto simp: lower_ldh_def ldh_def ascii_letter_def)

lemma ldh_char: "ldh c \<Longrightarrow> c < 128 \<and> c \<noteq> newline \<and> c \<noteq> dot"
  by (auto simp: ldh_def ascii_letter_def hyphen_def newline_def dot_def)

lemma spec_label_fuzz: "spec_label l \<Longrightarrow> fuzz_label l"
  using ldh_in_ldh_i by (auto simp: spec_label_def fuzz_label_def list_all_iff)

lemma tld_label_fuzz: "tld_label t \<Longrightarrow> fuzz_tld t"
  using ascii_letter_in_letter_i by (auto simp: tld_label_def fuzz_tld_def list_all_iff)

lemma registrable_fuzz_label:
  assumes "registrable d"
  shows "fuzz_label d \<longleftrightarrow> hd d \<noteq> hyphen \<and> last d \<noteq> hyphen \<and> length d \<le> 63"
  using assms lower_ldh_ldh ldh_in_ldh_i
  by (auto simp: registrable_def fuzz_label_def list_all_iff)

lemma reassemble_cases:
  assumes "d \<noteq> []" "t \<noteq> []"
  shows "reassemble sub d t = (if sub = [] then d @ dot # t else sub @ dot # d @ dot # t)"
  using assms by (simp add: reassemble_def filter_None_def)

lemma validate_reassembled:
  assumes r: "registrable d" and c: "valid_context sub t"
  shows "validate_domain lib (reassemble sub d t)
           \<longleftrightarrow> hd d \<noteq> hyphen \<and> last d \<noteq> hyphen \<and> length d \<le> 63
               \<and> length (reassemble sub d t) \<le> 253"
proof -
  let ?dom = "reassemble sub d t"
  let ?subs = "if sub = [] then [] else py_split dot sub"
  from r have dne: "d \<noteq> []" and dl: "2 \<le> length d" and dch: "\<forall>x \<in> set d. ldh x"
    using lower_ldh_ldh by (auto simp: registrable_def list_all_iff)
  from c have tl: "tld_label (last (py_split dot t))"
    and tls: "list_all spec_label (butlast (py_split dot t))"
    and sl: "list_all spec_label ?subs"
    by (auto simp: valid_context_def)
  have tne: "t \<noteq> []"
  proof
    assume "t = []"
    with tl show False by (simp add: tld_label_def)
  qed
  have dom: "?dom = (if sub = [] then d @ dot # t else sub @ dot # d @ dot # t)"
    using dne tne by (rule reassemble_cases)
  have dd: "dot \<notin> set d" using dch ldh_char by auto
  have sp: "py_split dot ?dom = ?subs @ [d] @ py_split dot t"
    unfolding dom using dd by (simp add: py_split_append_gen py_split_no_sep)
  have pt: "py_split dot t = butlast (py_split dot t) @ [last (py_split dot t)]"
    using py_split_not_Nil[of dot t] by simp
  have bl: "butlast (py_split dot ?dom) = ?subs @ [d] @ butlast (py_split dot t)"
    and la: "last (py_split dot ?dom) = last (py_split dot t)"
    unfolding sp using py_split_not_Nil[of dot t] by (simp_all add: butlast_append)
  have lne: "last (py_split dot ?dom) \<noteq> []"
    unfolding la using tl by (auto simp: tld_label_def)
  have piece_t: "ldh x" if "p \<in> set (py_split dot t)" "x \<in> set p" for p x
  proof -
    from that(1) have "p \<in> set (butlast (py_split dot t) @ [last (py_split dot t)])"
      using pt by simp
    then have "p \<in> set (butlast (py_split dot t)) \<or> p = last (py_split dot t)"
      by auto
    then show ?thesis
      using tls tl that(2) by (auto simp: list_all_iff spec_label_def tld_label_def ldh_def)
  qed
  have piece_s: "ldh x" if "sub \<noteq> []" "p \<in> set (py_split dot sub)" "x \<in> set p" for p x
    using sl that by (auto simp: list_all_iff spec_label_def)
  have ch: "x < 128 \<and> x \<noteq> newline" if "x \<in> set ?dom" for x
  proof -
    from that consider "x = dot" | "x \<in> set d" | "x \<in> set t" | "sub \<noteq> []" "x \<in> set sub"
      unfolding dom by (auto split: if_splits)
    then have "x = dot \<or> ldh x"
    proof cases
      case 1
      then show ?thesis by simp
    next
      case 2
      then show ?thesis using dch by simp
    next
      case 3
      from py_split_chars[OF this, of dot] show ?thesis using piece_t by blast
    next
      case 4
      from py_split_chars[OF 4(2), of dot] show ?thesis using piece_s[OF 4(1)] by blast
    qed
    then show ?thesis
      using ldh_char by (auto simp: dot_def newline_def)
  qed
  then have a: "is_ascii ?dom" and nl: "newline \<notin> set ?dom"
    by (auto simp: is_ascii_def list_all_iff)
  have four: "4 \<le> length ?dom"
  proof -
    have "2 \<le> length t"
    proof -
      have "length (last (py_split dot t)) \<le> length t"
        using split_butlast_last[of dot t]
        by (metis length_append le_add2)
      with tl show ?thesis by (simp add: tld_label_def)
    qed
    with dl show ?thesis unfolding dom by simp
  qed
  have "fuzz_form ?dom \<longleftrightarrow> fuzz_label d"
    unfolding fuzz_form_split_iff[OF lne] bl la
    using sl tls tl spec_label_fuzz tld_label_fuzz by (auto simp: list_all_iff)
  then show ?thesis
    unfolding validate_domain_ascii[OF a nl] registrable_fuzz_label[OF r]
    using four by auto
qed

section \<open>Claims on the strategies\<close>

text \<open>
  Claim C7, as the code has it: the Subdomain strategy returns exactly the strings obtained
  by inserting one dot at a position \<open>i\<close> with \<open>1 \<le> i \<le> len(s) - 4\<close> (the loop is
  \<open>range(1, len(s) - 3)\<close>) such that neither \<open>s[i-1]\<close> nor \<open>s[i]\<close> is a hyphen or a dot.
\<close>

theorem subdomain_positions:
  "set (subdomain s) =
     {take i s @ [dot] @ drop i s | i.
        1 \<le> i \<and> i + 4 \<le> length s \<and> s ! (i - 1) \<notin> {hyphen, dot} \<and> s ! i \<notin> {hyphen, dot}}"
proof -
  have r: "set (py_range 1 (int (length s) - 3)) = {i. 1 \<le> i \<and> i + 4 \<le> length s}"
    by (auto simp: py_range_set)
  show ?thesis
    unfolding subdomain_map_filter using r by auto
qed

text \<open>
  Claim C7 as stated (every interior position up to \<open>len(s) - 1\<close>) fails on \<open>abcd\<close>:
  the loop \<open>range(1, 1)\<close> is empty and nothing is returned, while the stated set holds
  \<open>a.bcd\<close>.
\<close>

theorem subdomain_spec_counterexample:
  "set (subdomain (u ''abcd'')) \<noteq> subdomain_spec (u ''abcd'')"
proof -
  have "subdomain (u ''abcd'') = []"
    by (simp add: subdomain_def py_range_def u_def)
  moreover have "u ''a.bcd'' \<in> subdomain_spec (u ''abcd'')"
    unfolding subdomain_spec_def
    by (rule CollectI, rule exI[of _ 1]) (simp add: u_def ord_def dot_def hyphen_def)
  ultimately show ?thesis by auto
qed

text \<open>
  Claim C9: for every string \<open>s\<close>, also the empty one and one of a single character, the
  Transposition strategy returns, in order of position, the string with the adjacent
  pair at \<open>i, i + 1\<close> swapped for exactly the positions \<open>i\<close> of \<open>0 .. len(s) - 2\<close> whose two
  characters differ (a pair of equal characters gives no result, and a string of fewer
  than two characters has no pair and gives the empty list); and at every pair of
  \<open>s\<close>, swapping the same pair of the result again gives \<open>s\<close> back.
\<close>

theorem transposition_swaps:
  "transposition s =
     map (\<lambda>i. swap_pair i s) (filter (\<lambda>i. s ! i \<noteq> s ! (i + 1)) [0 ..< length s - 1])
   \<and> (length s < 2 \<longrightarrow> transposition s = [])
   \<and> (\<forall>i. i + 1 < length s \<longrightarrow> swap_pair i (swap_pair i s) = s)"
proof (intro conjI allI impI)
  have "transposition s =
          map (\<lambda>i. take i s @ [s ! (i + 1)] @ [s ! i] @ drop (i + 2) s)
            (filter (\<lambda>i. s ! i \<noteq> s ! (i + 1)) [0 ..< length s - 1])"
  proof -
    have p: "(\<lambda>i. s ! (i + 1) \<noteq> s ! i) = (\<lambda>i. s ! i \<noteq> s ! (i + 1))" by auto
    have r: "py_range 0 (int (length s) - 1) = [0 ..< length s - 1]"
      by (simp add: py_range_upt nat_diff_distrib')
    show ?thesis unfolding transposition_map_filter p r ..
  qed
  also have "\<dots> = map (\<lambda>i. swap_pair i s) (filter (\<lambda>i. s ! i \<noteq> s ! (i + 1)) [0 ..< length s - 1])"
  proof (rule map_cong[OF refl])
    fix x
    assume "x \<in> set (filter (\<lambda>i. s ! i \<noteq> s ! (i + 1)) [0 ..< length s - 1])"
    then have "x + 1 < length s" by auto
    then show "take x s @ [s ! (x + 1)] @ [s ! x] @ drop (x + 2) s = swap_pair x s"
      by (rule slices_are_swap_pair)
  qed
  finally show eq: "transposition s =
           map (\<lambda>i. swap_pair i s) (filter (\<lambda>i. s ! i \<noteq> s ! (i + 1)) [0 ..< length s - 1])" .
  show "transposition s = []" if "length s < 2"
  proof -
    from that have "[0 ..< length s - 1] = []" by simp
    then show ?thesis unfolding eq by simp
  qed
  show "swap_pair i (swap_pair i s) = s" if "i + 1 < length s" for i
    using that by (rule swap_pair_involution)
qed

text \<open>
  Claim C9 at \<open>abb\<close>, where the pair at 0 is swapped and the pair of equal characters at
  1 is not, and at the one-character string \<open>a\<close>, which has no pair.
\<close>

theorem transposition_swaps_witness:
  "transposition (u ''abb'') = [u ''bab'']
   \<and> 0 + 1 < length (u ''abb'')
   \<and> swap_pair 0 (swap_pair 0 (u ''abb'')) = u ''abb''
   \<and> length (u ''a'') < 2
   \<and> transposition (u ''a'') = []"
proof -
  have h: "0 + 1 < length (u ''abb'')" by (simp add: u_def)
  have k: "length (u ''a'') < 2" by (simp add: u_def)
  from transposition_swaps[of "u ''abb''"] have
    a: "transposition (u ''abb'')
          = map (\<lambda>i. swap_pair i (u ''abb''))
              (filter (\<lambda>i. u ''abb'' ! i \<noteq> u ''abb'' ! (i + 1)) [0 ..< length (u ''abb'') - 1])"
    and b: "\<forall>i. i + 1 < length (u ''abb'') \<longrightarrow> swap_pair i (swap_pair i (u ''abb'')) = u ''abb''"
    by blast+
  from a have "transposition (u ''abb'') = [u ''bab'']"
    by (simp add: u_def ord_def swap_pair_def upt_conv_Cons)
  moreover from b h have "swap_pair 0 (swap_pair 0 (u ''abb'')) = u ''abb''" by blast
  moreover from transposition_swaps[of "u ''a''"] k have "transposition (u ''a'') = []" by blast
  ultimately show ?thesis using h k by blast
qed
section \<open>Claims on the candidate set\<close>

text \<open>
  Claim C2, as the code has it, for every registrable string \<open>d\<close> of length 2 or more
  over \<open>[a-z0-9-]\<close> in a syntactically valid subdomain and TLD context. When \<open>d\<close> neither
  starts nor ends with a hyphen, has at most 63 characters, and the reassembled domain
  has at most 253 characters, the list after \<open>generate\<close> on a fresh \<open>DomainFuzz\<close> is not
  empty, its entry at index 0 is the \<open>Original*\<close> entry named by the reassembled input
  domain, and that entry is the only one tagged \<open>Original*\<close>. Otherwise the filter drops
  the \<open>Original*\<close> entry and no entry with that tag is left. \<open>generate\<close> is a total
  function: it terminates on every input.
\<close>

theorem generate_original_first:
  assumes "registrable d" and "valid_context sub t"
  shows "if hd d \<noteq> hyphen \<and> last d \<noteq> hyphen \<and> length d \<le> 63
            \<and> length (reassemble sub d t) \<le> 253
         then fz_domains (generate lib (DomainFuzz sub d t)) \<noteq> []
              \<and> fz_domains (generate lib (DomainFuzz sub d t)) ! 0
                  = entry ''Original*'' (reassemble sub d t)
              \<and> filter (\<lambda>e. fuzzer e = ''Original*'')
                   (fz_domains (generate lib (DomainFuzz sub d t)))
                  = [entry ''Original*'' (reassemble sub d t)]
         else filter (\<lambda>e. fuzzer e = ''Original*'')
                (fz_domains (generate lib (DomainFuzz sub d t))) = []"
proof (cases "hd d \<noteq> hyphen \<and> last d \<noteq> hyphen \<and> length d \<le> 63
                \<and> length (reassemble sub d t) \<le> 253")
  case True
  then have "validate_domain lib (reassemble sub d t)"
    using validate_reassembled[OF assms] by simp
  then obtain rest where ds: "fz_domains (generate lib (DomainFuzz sub d t))
                           = entry ''Original*'' (reassemble sub d t) # rest"
    and tags: "\<forall>e \<in> set rest. fuzzer e \<noteq> ''Original*''"
    using generate_valid_original by blast
  from tags have "filter (\<lambda>e. fuzzer e = ''Original*'') rest = []"
    by (simp add: filter_empty_conv)
  then show ?thesis
    unfolding ds using True by (simp add: fuzzer_entry)
next
  case False
  then have "\<not> validate_domain lib (reassemble sub d t)"
    using validate_reassembled[OF assms] by simp
  then have "filter (\<lambda>e. fuzzer e = ''Original*'')
               (fz_domains (generate lib (DomainFuzz sub d t))) = []"
    by (rule generate_invalid_original)
  then show ?thesis using False by simp
qed

text \<open>
  Claim C2 at \<open>ab.com\<close>: the registrable string \<open>ab\<close> with no subdomain under \<open>com\<close>.
\<close>

theorem generate_original_first_witness:
  "registrable (u ''ab'') \<and> valid_context [] (u ''com'')
   \<and> hd (u ''ab'') \<noteq> hyphen \<and> last (u ''ab'') \<noteq> hyphen \<and> length (u ''ab'') \<le> 63
   \<and> length (reassemble [] (u ''ab'') (u ''com'')) \<le> 253
   \<and> fz_domains (generate ascii_lib (DomainFuzz [] (u ''ab'') (u ''com''))) \<noteq> []
   \<and> fz_domains (generate ascii_lib (DomainFuzz [] (u ''ab'') (u ''com''))) ! 0
             = entry ''Original*'' (u ''ab.com'')
   \<and> filter (\<lambda>e. fuzzer e = ''Original*'')
        (fz_domains (generate ascii_lib (DomainFuzz [] (u ''ab'') (u ''com''))))
             = [entry ''Original*'' (u ''ab.com'')]"
proof -
  have r: "reassemble [] (u ''ab'') (u ''com'') = u ''ab.com''"
    by (simp add: reassemble_def filter_None_def u_def ord_def dot_def)
  have h1: "registrable (u ''ab'')"
    by (simp add: registrable_def lower_ldh_def u_def ord_def)
  have h2: "valid_context [] (u ''com'')"
    by (simp add: valid_context_def tld_label_def ascii_letter_def u_def ord_def dot_def)
  have c: "hd (u ''ab'') \<noteq> hyphen \<and> last (u ''ab'') \<noteq> hyphen \<and> length (u ''ab'') \<le> 63
           \<and> length (reassemble [] (u ''ab'') (u ''com'')) \<le> 253"
    unfolding r by (simp add: u_def ord_def hyphen_def)
  from generate_original_first[OF h1 h2, of ascii_lib] c h1 h2 show ?thesis
    unfolding r by simp
qed

text \<open>
  Claim C2 as stated fails for registrable strings over \<open>[a-z0-9-]\<close> of length 2 or more
  in a valid context: for \<open>a-\<close> under \<open>com\<close> (a label that ends with a hyphen) and for
  a registrable string of 64 letters \<open>a\<close> under \<open>com\<close> (a label longer than 63) the
  filter drops the \<open>Original*\<close> entry, and no entry with that tag is left.
\<close>

theorem generate_original_dropped:
  "registrable (u ''a-'') \<and> valid_context [] (u ''com'')
   \<and> filter (\<lambda>e. fuzzer e = ''Original*'')
      (fz_domains (generate ascii_lib (DomainFuzz [] (u ''a-'') (u ''com'')))) = []
   \<and> registrable (replicate 64 (ord CHR ''a''))
   \<and> filter (\<lambda>e. fuzzer e = ''Original*'')
      (fz_domains (generate ascii_lib (DomainFuzz [] (replicate 64 (ord CHR ''a'')) (u ''com'')))) = []"
proof (intro conjI)
  show "registrable (u ''a-'')"
    by (simp add: registrable_def lower_ldh_def u_def ord_def hyphen_def)
  show "valid_context [] (u ''com'')"
    by (simp add: valid_context_def tld_label_def ascii_letter_def u_def ord_def dot_def)
  show "registrable (replicate 64 (ord CHR ''a''))"
    by (simp add: registrable_def lower_ldh_def list_all_replicate ord_def)
  have "\<not> validate_domain ascii_lib (reassemble [] (u ''a-'') (u ''com''))"
    by (simp add: validate_eval)
  then show "filter (\<lambda>e. fuzzer e = ''Original*'')
      (fz_domains (generate ascii_lib (DomainFuzz [] (u ''a-'') (u ''com'')))) = []"
    by (rule generate_invalid_original)
  from long_label_invalid show "filter (\<lambda>e. fuzzer e = ''Original*'')
      (fz_domains (generate ascii_lib (DomainFuzz [] (replicate 64 (ord CHR ''a'')) (u ''com'')))) = []"
    by (rule generate_invalid_original)
qed

text \<open>
  Claim C3 at a failing input. With \<open>ab.com\<close> and a dictionary file of the one word \<open>a\<close>,
  the candidate list of \<open>main\<close> names \<open>aba.com\<close> twice (Addition, and Dictionary, which is
  appended after the filter has run); with a TLD file of the one word \<open>a\<close> it holds
  \<open>ab.a\<close>, which the validator rejects.
\<close>

theorem expanders_not_filtered:
  "\<not> distinct (map domain_name
        (main_domains ascii_lib [] (u ''ab'') (u ''com'') (Some [u ''a'' @ [newline]]) None))
   \<and> \<not> list_all (\<lambda>e. validate_domain ascii_lib (domain_name e))
        (main_domains ascii_lib [] (u ''ab'') (u ''com'') None (Some [u ''a'' @ [newline]]))"
proof
  let ?f = "DomainFuzz [] (u ''ab'') (u ''com'')"
  let ?fuzz = "fz_domains (generate ascii_lib ?f)"
  let ?dict = "fz_domains (DomainDict_generate
                 (load_dict ascii_lib [u ''a'' @ [newline]] (DomainDict [] (u ''ab'') (u ''com''))))"
  let ?tlds = "fz_domains (TldDict_generate
                 (load_dict ascii_lib [u ''a'' @ [newline]] (DomainDict [] (u ''ab'') (u ''com''))))"
  have ld: "load_dict ascii_lib [u ''a'' @ [newline]] (DomainDict [] (u ''ab'') (u ''com''))
              = \<lparr>fz_subdomain = [], fz_domain = u ''ab'', fz_tld = u ''com'', fz_domains = [],
                 dictionary = [u ''a'']\<rparr>"
    by (simp add: load_dict_def DomainDict_def strip_newlines_def isalpha_def u_def ord_def
        newline_def)
  have "u ''aba'' \<in> set (addition (fz_domain ?f))"
    by (simp add: addition_set DomainFuzz_def u_def ord_def)
  then have "entry ''Addition'' (reassemble (fz_subdomain ?f) (u ''aba'') (fz_tld ?f))
               \<in> set (emitted ascii_lib ?f)"
    by (rule emitted_addition)
  then have "entry ''Addition'' (u ''aba.com'') \<in> set (emitted ascii_lib ?f)"
    by (simp add: DomainFuzz_def reassemble_def filter_None_def u_def ord_def dot_def)
  then have "domain_name (entry ''Addition'' (u ''aba.com'')) \<in> domain_name ` set (emitted ascii_lib ?f)"
    by (rule imageI)
  moreover have "validate_domain ascii_lib (u ''aba.com'')"
    by (simp add: validate_eval)
  ultimately have a: "u ''aba.com'' \<in> set (map domain_name ?fuzz)"
    by (simp add: generate_names domain_name_entry)
  have b: "u ''aba.com'' \<in> set (map domain_name ?dict)"
    unfolding ld
    by (simp add: DomainDict_generate_def dictionary_words_def entry_def reassemble_def
        filter_None_def u_def ord_def dot_def hyphen_def)
  have "\<not> distinct (map domain_name ?fuzz @ map domain_name ?dict)"
    using a b by auto
  then show "\<not> distinct (map domain_name
        (main_domains ascii_lib [] (u ''ab'') (u ''com'') (Some [u ''a'' @ [newline]]) None))"
    by (simp add: main_domains_def)
  have "?tlds = [entry ''TLD-swap'' (u ''ab.a'')]"
    unfolding ld
    by (simp add: TldDict_generate_def reassemble_def filter_None_def u_def ord_def dot_def)
  moreover have "\<not> validate_domain ascii_lib (u ''ab.a'')"
    by (simp add: validate_eval)
  ultimately have "\<not> list_all (\<lambda>e. validate_domain ascii_lib (domain_name e)) ?tlds"
    by (simp add: domain_name_entry)
  then show "\<not> list_all (\<lambda>e. validate_domain ascii_lib (domain_name e))
        (main_domains ascii_lib [] (u ''ab'') (u ''com'') None (Some [u ''a'' @ [newline]]))"
    by (simp add: main_domains_def)
qed

text \<open>
  Claim C4: in the list of \<open>generate\<close> for a fresh \<open>DomainFuzz\<close>, an entry whose
  domain-name is the reassembled input domain is at index 0 and is the \<open>Original*\<close> entry;
  no other entry has that name, whatever the strategies emitted before the filter.
\<close>

theorem original_name_only_at_0:
  assumes "i < length (fz_domains (generate lib (DomainFuzz sub d t)))"
    and "domain_name (fz_domains (generate lib (DomainFuzz sub d t)) ! i) = reassemble sub d t"
  shows "i = 0 \<and> fz_domains (generate lib (DomainFuzz sub d t)) ! i
                  = entry ''Original*'' (reassemble sub d t)"
proof -
  let ?ds = "fz_domains (generate lib (DomainFuzz sub d t))"
  have dist: "distinct (map domain_name ?ds)"
    by (simp add: generate_domains keep_distinct)
  have "?ds ! i \<in> set (keep lib {} (emitted lib (DomainFuzz sub d t)))"
    using assms(1) by (simp add: generate_domains)
  then have "validate_domain lib (domain_name (?ds ! i))"
    by (rule keep_valid)
  then have valid: "validate_domain lib (reassemble sub d t)"
    using assms(2) by simp
  obtain rest where ds: "?ds = entry ''Original*'' (reassemble sub d t) # rest"
    using generate_valid_original[OF valid] by blast
  have "map domain_name ?ds ! 0 = reassemble sub d t"
    unfolding ds by (simp add: domain_name_entry)
  moreover have "map domain_name ?ds ! i = reassemble sub d t"
    using assms by simp
  moreover have "0 < length (map domain_name ?ds)" "i < length (map domain_name ?ds)"
    using assms(1) by auto
  ultimately have "i = 0"
    using dist by (metis nth_eq_iff_index_eq)
  then show ?thesis using ds by simp
qed

text \<open>
  Claim C4 at \<open>ab.com\<close>, index 0.
\<close>

theorem original_name_only_at_0_witness:
  "0 < length (fz_domains (generate ascii_lib (DomainFuzz [] (u ''ab'') (u ''com''))))
   \<and> domain_name (fz_domains (generate ascii_lib (DomainFuzz [] (u ''ab'') (u ''com''))) ! 0)
       = reassemble [] (u ''ab'') (u ''com'')
   \<and> (0::nat) = 0
   \<and> fz_domains (generate ascii_lib (DomainFuzz [] (u ''ab'') (u ''com''))) ! 0
       = entry ''Original*'' (reassemble [] (u ''ab'') (u ''com''))"
proof -
  let ?ds = "fz_domains (generate ascii_lib (DomainFuzz [] (u ''ab'') (u ''com'')))"
  obtain rest where ds: "?ds = entry ''Original*'' (reassemble [] (u ''ab'') (u ''com'')) # rest"
    using generate_valid_original[OF valid_ab_com] by blast
  have h1: "0 < length ?ds" unfolding ds by simp
  have h2: "domain_name (?ds ! 0) = reassemble [] (u ''ab'') (u ''com'')"
    unfolding ds by (simp add: domain_name_entry)
  from original_name_only_at_0[OF h1 h2] h1 h2 show ?thesis by blast
qed

section \<open>Claims on the worker\<close>

text \<open>
  Claim C1 at two failing inputs. With the resolver module and \<open>--banners\<close>, a candidate
  whose A query fails while its AAAA query answers passes the test
  \<open>dns_a is True or dns_aaaa is True\<close>, and \<open>domain["dns-a"][0]\<close>, evaluated outside any
  \<open>try\<close>, raises \<open>KeyError\<close> out of \<open>run\<close>. Without the resolver module and with
  \<open>--mxcheck\<close>, \<open>dns_mx\<close> is never assigned and \<open>if dns_mx is True\<close> raises
  \<open>UnboundLocalError\<close> out of \<open>run\<close>.
\<close>

theorem run_raises:
  "raised (fst (snd (run ascii_lib aaaa_net (worker\<lparr>option_banners := True\<rparr>) 1
                      [entry ''Addition'' (u ''aba.com'')])))
     = Some (KeyError ''dns-a'')
   \<and> raised (fst (snd (run ascii_lib quiet_net
                        (worker\<lparr>option_extdns := False, option_mxcheck := True\<rparr>) 1
                        [entry ''Addition'' (u ''aba.com'')])))
     = Some (UnboundLocalError ''dns_mx'')"
  by (simp add: round_eval net_eval)

text \<open>
  Claim C5: for a candidate processed by a worker with the resolver module, whose name
  the \<open>idna\<close> codec encodes, the DNS queries of the round are, in order: NS; then nothing
  more when NS raised \<open>NXDOMAIN\<close>; otherwise A and AAAA, whatever else the NS query did;
  and MX after them exactly when the NS query returned an answer.
\<close>

theorem dns_query_order:
  assumes "option_extdns w" and "raised s = None"
    and "idna_encode lib (domain_name (cand s)) = Some n"
  shows "queries (log (run_round lib net w s))
           = queries (log s) @ Query NS #
               (case resolv_query net n NS of
                  NXDOMAIN \<Rightarrow> []
                | Answer xs \<Rightarrow> [Query A, Query AAAA, Query MX]
                | NoNameservers \<Rightarrow> [Query A, Query AAAA]
                | DNSException \<Rightarrow> [Query A, Query AAAA])"
proof -
  let ?s1 = "idna_step lib s"
  let ?s2 = "resolver_branch net ?s1"
  let ?rest = "steps [mxcheck_step net w, whois_step net w, geoip_step net w,
                      banners_step net w, ssdeep_step net w, unicode_step lib,
                      emit_event TaskDone]"
  have s1: "raised ?s1 = None" "log ?s1 = log s" "domain_name (cand ?s1) = n"
    using assms by (simp_all add: idna_step_def)
  have s2: "log ?s2 = log s @ Query NS #
               (case resolv_query net n NS of
                  NXDOMAIN \<Rightarrow> []
                | Answer xs \<Rightarrow> [Query A, Query AAAA, Query MX]
                | NoNameservers \<Rightarrow> [Query A, Query AAAA]
                | DNSException \<Rightarrow> [Query A, Query AAAA])"
    and r2: "raised ?s2 = None"
    using resolver_branch_log[OF s1(1), of net] s1 by simp_all
  have "run_round lib net w s = ?rest ?s2"
    using assms(1,2) s1 r2 by (simp add: run_round_def steps_Cons dns_step_def)
  then have "queries (log (run_round lib net w s)) = queries (log ?s2)"
    using quiet_after_dns[of net w lib] by (simp add: quiet_def)
  also have "\<dots> = queries (log s) @ Query NS #
               (case resolv_query net n NS of
                  NXDOMAIN \<Rightarrow> []
                | Answer xs \<Rightarrow> [Query A, Query AAAA, Query MX]
                | NoNameservers \<Rightarrow> [Query A, Query AAAA]
                | DNSException \<Rightarrow> [Query A, Query AAAA])"
    unfolding s2 by (simp add: queries_def is_query_def split: dns_result.split)
  finally show ?thesis .
qed

text \<open>
  Claim C5 for \<open>ab.com\<close> in \<open>mail_net\<close>, where the NS query answers.
\<close>

theorem dns_query_order_witness:
  "option_extdns worker
   \<and> raised (start (entry ''Original*'' (u ''ab.com'')) 1) = None
   \<and> idna_encode ascii_lib (domain_name (cand (start (entry ''Original*'' (u ''ab.com'')) 1)))
       = Some (u ''ab.com'')
   \<and> queries (log (run_round ascii_lib mail_net worker
                     (start (entry ''Original*'' (u ''ab.com'')) 1)))
       = [Query NS, Query A, Query AAAA, Query MX]"
proof -
  let ?s = "start (entry ''Original*'' (u ''ab.com'')) 1"
  have h1: "option_extdns worker" by (simp add: worker_def)
  have h2: "raised ?s = None" by (simp add: start_def)
  have h3: "idna_encode ascii_lib (domain_name (cand ?s)) = Some (u ''ab.com'')"
    by (simp add: start_def entry_def net_eval)
  have "resolv_query mail_net (u ''ab.com'') NS = Answer [u ''ns1.ab.com.'']"
    by (simp add: mail_net_def quiet_net_def)
  with dns_query_order[OF h1 h2 h3, of mail_net] h1 h2 h3 show ?thesis
    by (simp add: queries_def start_def)
qed

text \<open>
  Claim C6 at a failing input. The candidate is the original domain \<open>ab.com\<close> itself, with
  \<open>--mxcheck\<close> and an MX record. \<open>domain["domain-name"] is not self.domain_orig\<close> compares
  the freshly decoded string object with the object of \<open>url.domain\<close>; the two are equal
  and not identical, so the probe runs (from and to the original domain) and \<open>mx-spy\<close>
  is set.
\<close>

theorem mxcheck_on_original:
  "map mx_spy (fst (run ascii_lib mail_net (worker\<lparr>option_mxcheck := True\<rparr>) 1
                     [entry ''Original*'' (u ''ab.com'')])) = [Some True]
   \<and> MxCheck (u ''mail.ab.com'') (u ''randombob1@ab.com'') (u ''randomalice1@ab.com'')
       \<in> set (log (fst (snd (run ascii_lib mail_net (worker\<lparr>option_mxcheck := True\<rparr>) 1
                     [entry ''Original*'' (u ''ab.com'')]))))"
  by (simp add: round_eval net_eval answer_to_list_def split_str_def strip_dots_def strip_chars_def
       mxcheck_def mxcheck_from_def mxcheck_to_def)

section \<open>Claims on UrlParser\<close>

text \<open>
  Claim C8, as the code has it, for a URL whose authority has a non-empty domain (the
  authority up to its first colon, in lower case). \<open>UrlParser\<close> accepts the URL, with
  that domain in its \<open>domain\<close> field, exactly when the domain has at most 255 characters
  and, one trailing dot removed, is two or more labels joined by dots, where every label
  but the last is made of non-empty runs of letters and digits joined by single hyphens
  and the last label is two or more letters; no bound on the length of a label is
  checked. On every other non-empty domain \<open>UrlParser\<close> raises the domain-invalid
  \<open>ValueError\<close>. A plain host given as the URL is its own authority and its domain is
  the host in lower case, so \<open>UrlParser\<close> accepts a plain host exactly when its lower
  case has that form, and raises the domain-invalid \<open>ValueError\<close> on every other one.
\<close>

theorem url_validate_domain_form:
  "(url_authority url = Some g \<and> domain_of lib g \<noteq> [] \<longrightarrow>
      (if url_accepted (domain_of lib g)
       then \<exists>p. UrlParser lib url = Inr p \<and> up_authority p = g \<and> up_domain p = domain_of lib g
       else UrlParser lib url = Inl (ValueError ''Invalid domain name'')))
   \<and> (plain_host h \<longrightarrow> url_authority h = Some h \<and> domain_of lib h = lower lib h)
   \<and> (plain_host h \<and> lower lib h \<noteq> [] \<longrightarrow>
      (if url_accepted (lower lib h)
       then \<exists>p. UrlParser lib h = Inr p \<and> up_authority p = h \<and> up_domain p = lower lib h
       else UrlParser lib h = Inl (ValueError ''Invalid domain name'')))"
proof (intro conjI impI)
  assume "url_authority url = Some g \<and> domain_of lib g \<noteq> []"
  then have "url_authority url = Some g" "domain_of lib g \<noteq> []" by simp_all
  then show "if url_accepted (domain_of lib g)
       then \<exists>p. UrlParser lib url = Inr p \<and> up_authority p = g \<and> up_domain p = domain_of lib g
       else UrlParser lib url = Inl (ValueError ''Invalid domain name'')"
    by (rule UrlParser_authority)
next
  assume "plain_host h"
  then show "url_authority h = Some h" by (rule url_authority_plain_host)
next
  assume "plain_host h"
  then show "domain_of lib h = lower lib h" by (rule domain_of_plain_host)
next
  assume a: "plain_host h \<and> lower lib h \<noteq> []"
  then have "url_authority h = Some h" by (simp add: url_authority_plain_host)
  moreover from a have d: "domain_of lib h = lower lib h" by (simp add: domain_of_plain_host)
  moreover from a d have "domain_of lib h \<noteq> []" by simp
  ultimately have "if url_accepted (domain_of lib h)
       then \<exists>p. UrlParser lib h = Inr p \<and> up_authority p = h \<and> up_domain p = domain_of lib h
       else UrlParser lib h = Inl (ValueError ''Invalid domain name'')"
    by (intro UrlParser_authority)
  then show "if url_accepted (lower lib h)
       then \<exists>p. UrlParser lib h = Inr p \<and> up_authority p = h \<and> up_domain p = lower lib h
       else UrlParser lib h = Inl (ValueError ''Invalid domain name'')"
    unfolding d .
qed

text \<open>
  Claim C8 at two hosts: \<open>ab.com\<close> is accepted, with the domain \<open>ab.com\<close>; \<open>a_b.com\<close>
  is not of the form, and \<open>UrlParser\<close> raises the domain-invalid error.
\<close>

theorem url_validate_domain_form_witness:
  "plain_host (u ''ab.com'')
   \<and> url_authority (u ''ab.com'') = Some (u ''ab.com'')
   \<and> domain_of ascii_lib (u ''ab.com'') = u ''ab.com'' \<and> u ''ab.com'' \<noteq> []
   \<and> url_accepted (u ''ab.com'')
   \<and> (\<exists>p. UrlParser ascii_lib (u ''ab.com'') = Inr p \<and> up_authority p = u ''ab.com''
          \<and> up_domain p = u ''ab.com'')
   \<and> plain_host (u ''a_b.com'')
   \<and> url_authority (u ''a_b.com'') = Some (u ''a_b.com'')
   \<and> domain_of ascii_lib (u ''a_b.com'') = u ''a_b.com'' \<and> u ''a_b.com'' \<noteq> []
   \<and> \<not> url_accepted (u ''a_b.com'')
   \<and> UrlParser ascii_lib (u ''a_b.com'') = Inl (ValueError ''Invalid domain name'')"
proof -
  have h1: "plain_host (u ''ab.com'')"
    by (simp add: plain_host_def in_cls_def chars_def space_def u_def ord_def)
  have h2: "plain_host (u ''a_b.com'')"
    by (simp add: plain_host_def in_cls_def chars_def space_def u_def ord_def)
  have l1: "lower ascii_lib (u ''ab.com'') = u ''ab.com''"
    by (simp add: lower_def is_ascii_def u_def ord_def)
  have l2: "lower ascii_lib (u ''a_b.com'') = u ''a_b.com''"
    by (simp add: lower_def is_ascii_def u_def ord_def)
  have a1: "url_accepted (u ''ab.com'')"
    by (simp add: url_accepted_def url_domain_form_def url_label_def url_tld_def alnum_run_def
        alnum_i_def letter_i_def digit_def in_cls_def u_def ord_def dot_def hyphen_def)
  have a2: "\<not> url_accepted (u ''a_b.com'')"
    by (simp add: url_accepted_def url_domain_form_def url_label_def url_tld_def alnum_run_def
        alnum_i_def letter_i_def digit_def in_cls_def u_def ord_def dot_def hyphen_def)
  have n1: "u ''ab.com'' \<noteq> []" and n2: "u ''a_b.com'' \<noteq> []"
    by (simp_all add: u_def)
  note t1 = url_validate_domain_form[of "u ''ab.com''" "u ''ab.com''" ascii_lib "u ''ab.com''"]
  note t2 = url_validate_domain_form[of "u ''a_b.com''" "u ''a_b.com''" ascii_lib "u ''a_b.com''"]
  from t1 h1 l1 have b1: "url_authority (u ''ab.com'') = Some (u ''ab.com'')"
    "domain_of ascii_lib (u ''ab.com'') = u ''ab.com''"
    by simp_all
  from t2 h2 l2 have b2: "url_authority (u ''a_b.com'') = Some (u ''a_b.com'')"
    "domain_of ascii_lib (u ''a_b.com'') = u ''a_b.com''"
    by simp_all
  from t1 b1 a1 n1
  have c1: "\<exists>p. UrlParser ascii_lib (u ''ab.com'') = Inr p \<and> up_authority p = u ''ab.com''
              \<and> up_domain p = u ''ab.com''"
    by simp
  from t2 b2 a2 n2
  have c2: "UrlParser ascii_lib (u ''a_b.com'') = Inl (ValueError ''Invalid domain name'')"
    by simp
  from h1 h2 a1 a2 n1 n2 b1 b2 c1 c2 show ?thesis by blast
qed

text \<open>
  Claim C8 as stated fails in both directions: \<open>a--b.com\<close> has the stated form and
  \<open>UrlParser\<close> raises the domain-invalid error on it; a domain with a label of 64 letters
  has not the stated form and \<open>UrlParser\<close> accepts it.
\<close>

theorem url_form_counterexample:
  "spec_domain_form (u ''a--b.com'')
   \<and> UrlParser ascii_lib (u ''a--b.com'') = Inl (ValueError ''Invalid domain name'')
   \<and> \<not> spec_domain_form (replicate 64 (ord CHR ''a'') @ u ''.com'')
   \<and> (\<exists>p. UrlParser ascii_lib (replicate 64 (ord CHR ''a'') @ u ''.com'') = Inr p
          \<and> up_domain p = replicate 64 (ord CHR ''a'') @ u ''.com'')"
proof (intro conjI)
  let ?long = "replicate 64 (ord CHR ''a'') @ u ''.com''"
  show "spec_domain_form (u ''a--b.com'')"
    by (simp add: spec_domain_form_def spec_label_def ldh_def ascii_letter_def u_def ord_def
        dot_def hyphen_def)
  have h1: "plain_host (u ''a--b.com'')"
    by (simp add: plain_host_def in_cls_def chars_def space_def u_def ord_def)
  have l1: "lower ascii_lib (u ''a--b.com'') = u ''a--b.com''"
    by (simp add: lower_def is_ascii_def u_def ord_def)
  have "\<not> url_accepted (u ''a--b.com'')"
    by (simp add: url_accepted_def url_domain_form_def url_label_def alnum_run_def u_def ord_def
        dot_def hyphen_def)
  moreover have "url_authority (u ''a--b.com'') = Some (u ''a--b.com'')"
    using h1 by (rule url_authority_plain_host)
  moreover have d1: "domain_of ascii_lib (u ''a--b.com'') = u ''a--b.com''"
    using domain_of_plain_host[OF h1] l1 by simp
  moreover have "u ''a--b.com'' \<noteq> []" by (simp add: u_def)
  ultimately show "UrlParser ascii_lib (u ''a--b.com'') = Inl (ValueError ''Invalid domain name'')"
    using UrlParser_authority[of "u ''a--b.com''" "u ''a--b.com''" ascii_lib] by simp
  have sp: "py_split dot ?long = [replicate 64 97, u ''com'']"
    using py_split_append[of dot "replicate 64 97" "u ''com''"]
    by (simp add: py_split_no_sep dot_def u_def ord_def)
  show "\<not> spec_domain_form ?long"
    unfolding spec_domain_form_def sp by (simp add: spec_label_def)
  have "py_split hyphen (replicate 64 97) = [replicate 64 97]"
    by (rule py_split_no_sep) (simp add: hyphen_def)
  then have "url_label (replicate 64 97)"
    by (simp add: url_label_def alnum_run_def list_all_replicate in_cls_def alnum_i_def
        letter_i_def ord_def)
  then have "url_domain_form ?long"
    unfolding url_domain_form_def sp
    by (simp add: url_tld_def in_cls_def letter_i_def u_def ord_def)
  then have a2: "url_accepted ?long"
    by (simp add: url_accepted_def u_def ord_def dot_def)
  have h2: "plain_host ?long"
    by (simp add: plain_host_def list_all_replicate in_cls_def chars_def space_def u_def ord_def)
  have l2: "lower ascii_lib ?long = ?long"
    by (simp add: lower_def is_ascii_def list_all_replicate u_def ord_def)
  have "url_authority ?long = Some ?long"
    using h2 by (rule url_authority_plain_host)
  moreover have "domain_of ascii_lib ?long = ?long"
    using domain_of_plain_host[OF h2] l2 by simp
  moreover have "?long \<noteq> []" by (simp add: u_def)
  ultimately show "\<exists>p. UrlParser ascii_lib ?long = Inr p \<and> up_domain p = ?long"
    using UrlParser_authority[of ?long ?long ascii_lib] a2 by auto
qed

text \<open>
  Claim C10: when the pattern does not match the URL, or the authority group is absent
  or empty, \<open>UrlParser\<close> raises nothing and its domain field is the empty string.
\<close>

theorem empty_authority_no_error:
  assumes "case re_match re_rfc3986_enhanced (init_url url) of
             None \<Rightarrow> True
           | Some m \<Rightarrow> \<not> truthy (group m ''authority'')"
  shows "\<exists>p. UrlParser lib url = Inr p \<and> up_domain p = []"
proof (cases "re_match re_rfc3986_enhanced (init_url url)")
  case None
  then show ?thesis
    by (simp add: UrlParser_def parse_def)
next
  case (Some m)
  with assms have "\<not> truthy (group m ''authority'')" by simp
  then show ?thesis
    using Some
    by (simp add: UrlParser_def parse_def parse_authority_empty up_domain_parse_scheme
        up_domain_parse_path up_domain_parse_query)
qed

text \<open>
  Claim C10 for the empty input, which becomes \<open>http://\<close>: the authority group matches
  the empty string.
\<close>

theorem empty_authority_no_error_witness:
  "(case re_match re_rfc3986_enhanced (init_url []) of
      None \<Rightarrow> True
    | Some m \<Rightarrow> \<not> truthy (group m ''authority''))
   \<and> (\<exists>p. UrlParser ascii_lib [] = Inr p \<and> up_domain p = [])"
proof -
  have h: "case re_match re_rfc3986_enhanced (init_url []) of
             None \<Rightarrow> True
           | Some m \<Rightarrow> \<not> truthy (group m ''authority'')"
    by (simp add: rfc3986_eval truthy_def)
  from empty_authority_no_error[OF h] h show ?thesis by blast
qed

end
